theory Spec2Isabelle
  imports Main "HOL-Library.Word" "HOL-Library.Signed_Division"
begin

unbundle bit_operations_syntax

section \<open>Alignments and the redundancy filter of align_contigs\<close>

text \<open>
  The fields of \<^verbatim>\<open>Path\<close> and \<^verbatim>\<open>Overlap\<close> that ALNplot.c reads and writes.
  Coordinates are C \<^verbatim>\<open>int\<close>s; they are modelled as \<open>int\<close> (contig coordinates stay far
  below \<open>2^31\<close>).  \<open>flags\<close> is the \<^verbatim>\<open>uint32\<close> flag word, \<open>trace\<close> the \<open>tlen\<close> trace bytes
  stored behind the record in the overlap block.
\<close>

record Path =
  abpos :: int
  bbpos :: int
  aepos :: int
  bepos :: int
  diffs :: int

record Overlap =
  path  :: Path
  flags :: "32 word"
  trace :: "nat list"

definition ELIMINATED :: "32 word" where
  "ELIMINATED = 0x4"

definition is_eliminated :: "Overlap \<Rightarrow> bool" where
  "is_eliminated w \<longleftrightarrow> flags w AND ELIMINATED \<noteq> 0"

definition eliminate :: "Overlap \<Rightarrow> Overlap" where
  "eliminate w = w\<lparr>flags := flags w OR ELIMINATED\<rparr>"

text \<open>
  First pass (lines 3059-3109).  \<open>os\<close> is the overlap block read through \<^verbatim>\<open>perm\<close>, that is
  in the order \<^verbatim>\<open>qsort_r\<close> left it (ascending \<open>abpos\<close>).  \<open>pass1_inner os j k\<close> is the loop
  over \<open>k\<close> for a fixed \<open>j\<close>: \<^verbatim>\<open>break\<close> returns, \<^verbatim>\<open>continue\<close> goes to \<open>k+1\<close>.
\<close>

function pass1_inner :: "Overlap list \<Rightarrow> nat \<Rightarrow> nat \<Rightarrow> Overlap list" where
  "pass1_inner os j k =
     (if k < length os then
        (let op = path (os ! j); wp = path (os ! k) in
         if aepos op \<le> abpos wp then os
         else if is_eliminated (os ! k) then pass1_inner os j (k + 1)
         else if abpos op = abpos wp \<and> bbpos op = bbpos wp then
           (if aepos op = aepos wp \<and> bepos op = bepos wp then
              (if diffs op < aepos wp
               then pass1_inner (os[k := eliminate (os ! k)]) j (k + 1)
               else os[j := eliminate (os ! j)])
            else
              (if aepos op > aepos wp
               then pass1_inner (os[k := eliminate (os ! k)]) j (k + 1)
               else os[j := eliminate (os ! j)]))
         else if aepos op = aepos wp \<and> bepos op = bepos wp then
           (if abpos op < abpos wp
            then pass1_inner (os[k := eliminate (os ! k)]) j (k + 1)
            else os[j := eliminate (os ! j)])
         else pass1_inner os j (k + 1))
      else os)"
  by pat_completeness auto
termination
  by (relation "measure (\<lambda>(os, j, k). length os - k)") auto

declare pass1_inner.simps [simp del]

text \<open>The loop \<^verbatim>\<open>for (j = nlas-1; j >= 0; j--)\<close>: \<open>pass1_outer os n\<close> runs \<open>j = n-1, ..., 0\<close>.\<close>

fun pass1_outer :: "Overlap list \<Rightarrow> nat \<Rightarrow> Overlap list" where
  "pass1_outer os 0 = os"
| "pass1_outer os (Suc j) = pass1_outer (pass1_inner os j (j + 1)) j"

definition pass1 :: "Overlap list \<Rightarrow> Overlap list" where
  "pass1 os = pass1_outer os (length os)"

definition mk_ovl :: "int \<Rightarrow> int \<Rightarrow> int \<Rightarrow> int \<Rightarrow> int \<Rightarrow> nat list \<Rightarrow> Overlap" where
  "mk_ovl ab bb ae be d tr =
     \<lparr>path = \<lparr>abpos = ab, bbpos = bb, aepos = ae, bepos = be, diffs = d\<rparr>,
      flags = 0, trace = tr\<rparr>"

subsection \<open>entwine\<close>

text \<open>
  Reads of a trace are reads of the \<open>tlen\<close> bytes behind the record; a read outside them
  and a division by zero are undefined in C and are the value \<open>None\<close> here.  C division
  truncates towards zero (\<open>sdiv\<close>).
\<close>

definition TSPACE :: int where
  "TSPACE = 100"

definition rd :: "nat list \<Rightarrow> int \<Rightarrow> int option" where
  "rd tr i = (if 0 \<le> i \<and> i < int (length tr) then Some (int (tr ! nat i)) else None)"

definition cdiv :: "int \<Rightarrow> int \<Rightarrow> int option" where
  "cdiv a b = (if b = 0 then None else Some (a sdiv b))"

text \<open>The update of \<open>min\<close> by the next signed difference \<open>i\<close> (lines 2510-2521, 2550-2561).\<close>

definition minupd :: "int \<Rightarrow> int \<Rightarrow> int" where
  "minupd mn i =
     (if mn < 0 \<and> mn < i then (if i \<ge> 0 then 0 else i)
      else if mn > 0 \<and> mn > i then (if i \<le> 0 then 0 else i)
      else mn)"

text \<open>\<^verbatim>\<open>for (i = 1; i < j; i += 2) y2 += jtrace[i];\<close>\<close>

function entw_skip :: "nat list \<Rightarrow> int \<Rightarrow> int \<Rightarrow> int \<Rightarrow> int option" where
  "entw_skip jt j i y2 =
     (if i < j then
        (case rd jt i of None \<Rightarrow> None
         | Some d \<Rightarrow> entw_skip jt j (i + 2) (y2 + d))
      else Some y2)"
  by pat_completeness auto
termination
  by (relation "measure (\<lambda>(jt, j, i, y2). nat (j - i))") auto

declare entw_skip.simps [simp del]

text \<open>
  The walk \<^verbatim>\<open>for (ac += TSPACE; ac < ae; ac += TSPACE)\<close>.  The state is
  \<open>(ac, y2, b2, j, k, min, where)\<close>; \<^verbatim>\<open>num\<close> and \<^verbatim>\<open>den\<close> only feed the debugging print
  and are left out.
\<close>

function entw_loop :: "nat list \<Rightarrow> nat list \<Rightarrow> int \<Rightarrow> int \<Rightarrow> int \<Rightarrow> int \<Rightarrow> int \<Rightarrow> int
    \<Rightarrow> int \<Rightarrow> int \<Rightarrow> (int \<times> int \<times> int \<times> int \<times> int \<times> int \<times> int) option" where
  "entw_loop jt kt ae ac y2 b2 j k mn wh =
     (if ac < ae then
        (case rd jt j of None \<Rightarrow> None
         | Some dj \<Rightarrow>
        (case rd kt k of None \<Rightarrow> None
         | Some dk \<Rightarrow>
            entw_loop jt kt ae (ac + TSPACE) (y2 + dj) (b2 + dk) (j + 2) (k + 2)
              (minupd mn ((b2 + dk) - (y2 + dj)))
              (if (b2 + dk) - (y2 + dj) = 0 then ac else wh)))
      else Some (ac, y2, b2, j, k, mn, wh))"
  by pat_completeness auto
termination
  by (relation "measure (\<lambda>(jt, kt, ae, ac, y2, b2, j, k, mn, wh). nat (ae - ac))")
    (auto simp: TSPACE_def)

declare entw_loop.simps [simp del]

text \<open>\<open>entwine jpath jtrace kpath ktrace\<close> returns \<open>(min, where)\<close>.\<close>

definition entwine :: "Path \<Rightarrow> nat list \<Rightarrow> Path \<Rightarrow> nat list \<Rightarrow> (int \<times> int) option" where
  "entwine jpath jtrace kpath ktrace =
     (let j0 = abpos jpath sdiv TSPACE;
          k0 = abpos kpath sdiv TSPACE;
          ac0 = k0 * TSPACE;
          j = 1 + 2 * (k0 - j0)
      in case entw_skip jtrace j 1 (bbpos jpath) of None \<Rightarrow> None
         | Some y2 \<Rightarrow>
        (case rd jtrace j of None \<Rightarrow> None
         | Some dj \<Rightarrow>
        (case (if j = 1
               then cdiv (dj * (abpos kpath - abpos jpath)) (ac0 + TSPACE - abpos jpath)
               else cdiv (dj * (abpos kpath - ac0)) TSPACE) of None \<Rightarrow> None
         | Some q \<Rightarrow>
        (let yp = y2 + q;
             num = bbpos kpath - yp;
             ae = (if aepos jpath > aepos kpath then aepos kpath else aepos jpath)
         in case entw_loop jtrace ktrace ae (ac0 + TSPACE) y2 (bbpos kpath) j 1 num (- 1)
            of None \<Rightarrow> None
            | Some (ac1, y2a, b2a, ja, ka, mn, wh) \<Rightarrow>
           (let ac = ac1 - TSPACE in
            if ae = aepos jpath then
              (case rd ktrace ka of None \<Rightarrow> None
               | Some dk \<Rightarrow>
              (case (if aepos kpath \<ge> ac then cdiv (dk * (ae - ac)) TSPACE
                     else cdiv (dk * (ae - ac)) (aepos kpath - ac)) of None \<Rightarrow> None
               | Some r \<Rightarrow> Some (minupd mn ((b2a + r) - bepos jpath), wh)))
            else
              (case rd jtrace ja of None \<Rightarrow> None
               | Some dj2 \<Rightarrow>
              (case (if aepos jpath \<ge> ac then cdiv (dj2 * (ae - ac)) TSPACE
                     else cdiv (dj2 * (ae - ac)) (aepos jpath - ac)) of None \<Rightarrow> None
               | Some r \<Rightarrow> Some (minupd mn (bepos kpath - (y2a + r)), wh))))))))"

subsection \<open>Second pass and output\<close>

text \<open>
  Second pass (lines 3111-3146; the statements behind the unconditional \<^verbatim>\<open>continue\<close> of
  line 3146 are never executed).  The result is \<open>None\<close> when \<open>entwine\<close> reads outside a
  trace.
\<close>

function pass2_inner :: "Overlap list \<Rightarrow> nat \<Rightarrow> nat \<Rightarrow> Overlap list option" where
  "pass2_inner os j k =
     (if k < length os then
        (let op = path (os ! j); wp = path (os ! k) in
         if aepos op \<le> abpos wp then Some os
         else if is_eliminated (os ! k) then pass2_inner os j (k + 1)
         else if bepos op \<le> bbpos wp \<or> bbpos op \<ge> bepos wp then pass2_inner os j (k + 1)
         else
           (case entwine op (trace (os ! j)) wp (trace (os ! k)) of None \<Rightarrow> None
            | Some (dist, wh) \<Rightarrow>
                if wh \<noteq> - 1 then pass2_inner os j (k + 1)
                else if dist < 0 \<and> bepos wp \<le> bepos op + 10
                  then pass2_inner (os[k := eliminate (os ! k)]) j (k + 1)
                else if dist > 0 \<and> abpos wp \<le> abpos op + 10 \<and> bepos wp + 10 \<ge> bepos op
                  then Some (os[j := eliminate (os ! j)])
                else pass2_inner os j (k + 1)))
      else Some os)"
  by pat_completeness auto
termination
  by (relation "measure (\<lambda>(os, j, k). length os - k)") auto

declare pass2_inner.simps [simp del]

fun pass2_outer :: "Overlap list \<Rightarrow> nat \<Rightarrow> Overlap list option" where
  "pass2_outer os 0 = Some os"
| "pass2_outer os (Suc j) =
     (if is_eliminated (os ! j) then pass2_outer os j
      else (case pass2_inner os j (j + 1) of None \<Rightarrow> None
            | Some os' \<Rightarrow> pass2_outer os' j))"

definition pass2 :: "Overlap list \<Rightarrow> Overlap list option" where
  "pass2 os = pass2_outer os (length os)"

text \<open>
  Words of the specification: one alignment is dominated by another in a-extent and in
  b-extent within a slack of 10 bases.
\<close>

definition spec_dominated :: "Path \<Rightarrow> Path \<Rightarrow> bool" where
  "spec_dominated x y \<longleftrightarrow>
     abpos y \<le> abpos x + 10 \<and> aepos x \<le> aepos y + 10 \<and>
     bbpos y \<le> bbpos x + 10 \<and> bepos x \<le> bepos y + 10"

section \<open>Chain search: the sweep of align_contigs\<close>

text \<open>
  A sorted seed record \<^verbatim>\<open>[lcp, diag_low, a-post, diag_high, b-contig]\<close> as
  \<^verbatim>\<open>align_contigs\<close> reads it: \<open>lcp\<close> and \<open>drem\<close> are the two leading bytes, \<open>ipost\<close> the
  \<^verbatim>\<open>IPOST\<close> bytes copied into a zeroed \<^verbatim>\<open>int64\<close>, \<open>dbuck\<close> the \<^verbatim>\<open>DBYTE\<close> bytes of the
  diagonal bucket.  The pointers \<^verbatim>\<open>b\<close>, \<^verbatim>\<open>m\<close>, \<^verbatim>\<open>e\<close>, \<^verbatim>\<open>s\<close>, \<^verbatim>\<open>t\<close> are record indices.
\<close>

record Seed =
  lcp   :: int
  drem  :: int
  ipost :: "64 word"
  dbuck :: int

record Jspan =
  jpost :: int
  jlcp  :: int

record Params =
  CHAIN_BREAK :: int
  CHAIN_MIN   :: int
  ALIGN_MIN   :: int
  KMER        :: int

definition MAX_INT64 :: "64 word" where
  "MAX_INT64 = 0x7fffffffffffffff"

definition BUCK_WIDTH :: int where
  "BUCK_WIDTH = 64"

definition BUCK_SHIFT :: nat where
  "BUCK_SHIFT = 6"

datatype error = UninitRead | TraceRead

text \<open>
  The local aligner \<^verbatim>\<open>Local_Alignment\<close> is a collaborator outside ALNplot.c: for the two
  loaded contigs it maps the band \<open>(dgmin, dgmax, anti)\<close> to a path and its trace.
\<close>

type_synonym aligner = "int \<Rightarrow> int \<Rightarrow> int \<Rightarrow> Path \<times> nat list"

text \<open>
  The locals \<^verbatim>\<open>mix\<close>, \<^verbatim>\<open>len\<close>/\<^verbatim>\<open>list\<close>, \<^verbatim>\<open>dgmin\<close>, \<^verbatim>\<open>dgmax\<close>, \<^verbatim>\<open>apmin\<close> of the block
  at line 2717 have no initialiser: they are \<open>None\<close> until the first chain is started,
  and reading them before is the error \<open>UninitRead\<close>.
\<close>

record Chain =
  mix   :: nat
  jlist :: "Jspan list"
  dgmin :: int
  dgmax :: int
  apmin :: int

text \<open>
  \<open>tfile\<close> is the sequence of overlaps written to the temporary file, \<open>aligned\<close> the
  sequence of bands the aligner was called with.
\<close>

record Sweep =
  lps     :: int
  cov     :: int
  chain   :: "Chain option"
  alast   :: int
  nhit    :: nat
  tfile   :: "Overlap list"
  aligned :: "(int \<times> int \<times> int) list"

text \<open>The b-side union cover of lines 2845-2858, over the list sorted by \<open>jpost\<close>.\<close>

fun jcover :: "int \<Rightarrow> int \<Rightarrow> Jspan list \<Rightarrow> int" where
  "jcover jlps jcov [] = jcov"
| "jcover jlps jcov (x # xs) =
     (if jpost x + jlcp x > jlps
      then jcover (jpost x + jlcp x)
             (if jpost x \<ge> jlps then jcov + jlcp x else jcov + (jpost x + jlcp x - jlps)) xs
      else jcover jlps jcov xs)"

definition JSORT :: "Jspan list \<Rightarrow> Jspan list" where
  "JSORT l = sort_key jpost l"

text \<open>
  The band handed to the aligner (lines 2913-2927), \<open>cmp\<close> being \<^verbatim>\<open>comp\<close>: \<open>None\<close> when
  \<^verbatim>\<open>mo\<close> is 0, otherwise \<open>(dgmin, dgmax, anti)\<close>.  \<^verbatim>\<open>>> 1\<close> on a signed value is the floor of the half.
\<close>

definition band :: "bool \<Rightarrow> int \<Rightarrow> int \<Rightarrow> int \<Rightarrow> int \<Rightarrow> Chain \<Rightarrow> (int \<times> int \<times> int) option" where
  "band cmp aoffset doffset al apmax c =
     (if cmp then
        (if apmax \<le> al then
           (let dmin = doffset - dgmax c; dmax = doffset - dgmin c in
            Some (dmin, dmax, (push_bit 1 aoffset - (apmin c + apmax)) - drop_bit 1 (dmax + dmin)))
         else None)
      else
        (if apmin c \<ge> al then
           (let dmin = dgmin c + doffset; dmax = dgmax c + doffset in
            Some (dmin, dmax, (apmin c + apmax) - drop_bit 1 (dmax + dmin)))
         else None))"

text \<open>
  What happens to a chain when it breaks (lines 2815-2969).  \<open>oflags\<close> is \<^verbatim>\<open>ovl->flags\<close>
  and \<^verbatim>\<open>comp\<close> is \<^verbatim>\<open>ovl->flags != 0\<close>.
\<close>

definition process_chain ::
    "Params \<Rightarrow> aligner \<Rightarrow> 32 word \<Rightarrow> bool \<Rightarrow> int \<Rightarrow> int \<Rightarrow> int \<Rightarrow> Sweep \<Rightarrow> error + Sweep" where
  "process_chain P la oflags new alen aoffset doffset st =
     (if cov st \<ge> CHAIN_MIN P then
        (case chain st of None \<Rightarrow> Inl UninitRead
         | Some c \<Rightarrow>
            if mix c \<noteq> 1 \<or> new then
              (let st1 = st\<lparr>nhit := nhit st + 1\<rparr>;
                   jcov = jcover (- 128) 0 (JSORT (jlist c))
               in if jcov \<ge> CHAIN_MIN P then
                    (case band (oflags \<noteq> 0) aoffset doffset (alast st1) (lps st1) c of
                       None \<Rightarrow> Inr st1
                     | Some (dmin, dmax, anti) \<Rightarrow>
                        (let (pth, tr) = la dmin dmax anti;
                             st2 = st1\<lparr>aligned := aligned st1 @ [(dmin, dmax, anti)]\<rparr>;
                             st3 = (if aepos pth - abpos pth \<ge> ALIGN_MIN P
                                    then st2\<lparr>tfile := tfile st2 @
                                           [\<lparr>path = pth, flags = oflags, trace = tr\<rparr>]\<rparr>
                                    else st2)
                         in Inr (st3\<lparr>alast := (if oflags \<noteq> 0 then alen - abpos pth
                                                 else aepos pth)\<rparr>)))
                  else Inr st1)
            else Inr st)
      else Inr st)"

text \<open>
  One turn of the loop \<^verbatim>\<open>while (go)\<close> after the next seed \<open>(npost, lcp, dg, wch)\<close> has been
  chosen (lines 2795-2985).
\<close>

definition extend_chain :: "int \<Rightarrow> int \<Rightarrow> int \<Rightarrow> nat \<Rightarrow> Sweep \<Rightarrow> error + Sweep" where
  "extend_chain npost l dg wch st =
     (case chain st of None \<Rightarrow> Inl UninitRead
      | Some c \<Rightarrow>
         (let cps = npost + l;
              st1 = (if cps > lps st
                     then st\<lparr>cov := (if npost \<ge> lps st then cov st + l
                                       else cov st + (cps - lps st)),
                             lps := cps\<rparr>
                     else st);
              c1 = c\<lparr>jlist := jlist c @ [\<lparr>jpost = npost - dg, jlcp = l\<rparr>],
                     mix := mix c OR wch\<rparr>;
              c2 = (if dg < dgmin c1 then c1\<lparr>dgmin := dg\<rparr>
                    else if dg > dgmax c1 then c1\<lparr>dgmax := dg\<rparr> else c1)
          in Inr (st1\<lparr>chain := Some c2\<rparr>)))"

definition start_chain :: "int \<Rightarrow> int \<Rightarrow> int \<Rightarrow> nat \<Rightarrow> Sweep \<Rightarrow> Sweep" where
  "start_chain npost l dg wch st =
     st\<lparr>cov := l, lps := npost + l,
        chain := Some \<lparr>mix = wch, jlist = [\<lparr>jpost = npost - dg, jlcp = l\<rparr>],
                       dgmin = dg, dgmax = dg, apmin = npost\<rparr>\<rparr>"

definition sweep_step ::
    "Params \<Rightarrow> aligner \<Rightarrow> 32 word \<Rightarrow> bool \<Rightarrow> int \<Rightarrow> int \<Rightarrow> int
     \<Rightarrow> int \<Rightarrow> int \<Rightarrow> int \<Rightarrow> nat \<Rightarrow> bool \<Rightarrow> Sweep \<Rightarrow> error + Sweep" where
  "sweep_step P la oflags new alen aoffset doffset npost l dg wch go st =
     (if npost < lps st + CHAIN_BREAK P then extend_chain npost l dg wch st
      else
        (case process_chain P la oflags new alen aoffset doffset st of
           Inl x \<Rightarrow> Inl x
         | Inr st1 \<Rightarrow> Inr (if go then start_chain npost l dg wch st1 else st1)))"

text \<open>
  \<open>seed_at xs over i\<close> is the record at index \<open>i\<close>; beyond the range of the contig pair the
  code reads the record that follows in the sort array, here \<open>over\<close>.
\<close>

definition seed_at :: "Seed list \<Rightarrow> Seed \<Rightarrow> nat \<Rightarrow> Seed" where
  "seed_at xs over i = (if i < length xs then xs ! i else over)"

text \<open>
  The merge of the runs \<open>[b, m)\<close> and \<open>[m, e)\<close> by a-post (lines 2767-3004) with the state
  \<open>(s, t, ipost, apost)\<close>; the turn that moves \<open>s\<close> beyond \<open>m\<close> has \<^verbatim>\<open>go = 0\<close> and is the
  last.
\<close>

function merge_loop ::
    "Params \<Rightarrow> aligner \<Rightarrow> 32 word \<Rightarrow> bool \<Rightarrow> int \<Rightarrow> int \<Rightarrow> int \<Rightarrow> Seed list \<Rightarrow> Seed
     \<Rightarrow> nat \<Rightarrow> nat \<Rightarrow> nat \<Rightarrow> nat \<Rightarrow> 64 word \<Rightarrow> 64 word \<Rightarrow> Sweep \<Rightarrow> error + Sweep" where
  "merge_loop P la oflags new alen aoffset doffset xs over m e s t ip ap st =
     (if ap <s ip then
        (case sweep_step P la oflags new alen aoffset doffset
                (sint ap) (lcp (seed_at xs over t)) (drem (seed_at xs over t) + BUCK_WIDTH)
                2 True st of
           Inl x \<Rightarrow> Inl x
         | Inr st1 \<Rightarrow>
             merge_loop P la oflags new alen aoffset doffset xs over m e s (t + 1) ip
               (if t + 1 \<ge> e then MAX_INT64 else ipost (seed_at xs over (t + 1))) st1)
      else if s + 1 > m then
        sweep_step P la oflags new alen aoffset doffset
          (sint ip) (lcp (seed_at xs over s)) (drem (seed_at xs over s)) 1 False st
      else
        (case sweep_step P la oflags new alen aoffset doffset
                (sint ip) (lcp (seed_at xs over s)) (drem (seed_at xs over s)) 1 True st of
           Inl x \<Rightarrow> Inl x
         | Inr st1 \<Rightarrow>
             merge_loop P la oflags new alen aoffset doffset xs over m e (s + 1) t
               (if s + 1 \<ge> m then MAX_INT64 else ipost (seed_at xs over (s + 1))) ap st1))"
  by pat_completeness auto
termination
proof (relation "measure (\<lambda>(P, la, oflags, new, alen, aoffset, doffset, xs, over, m, e, s, t,
          ip, ap, st). (m - s) + (e - t) + (if ap = MAX_INT64 then 0 else 1))")
  show "wf (measure (\<lambda>(P, la, oflags, new, alen, aoffset, doffset, xs, over, m, e, s, t,
          ip, ap, st). (m - s) + (e - t) + (if ap = MAX_INT64 then 0 else (1::nat))))"
    by simp
next
  fix P :: Params and la :: aligner and oflags :: "32 word" and new :: bool
    and alen aoffset doffset :: int and xs :: "Seed list" and over :: Seed
    and m e s t :: nat and ip ap :: "64 word" and st x2 :: Sweep
  assume lt: "ap <s ip"
  have "sint ap < sint ip"
    using lt by (simp add: word_sless_alt)
  moreover have "sint ip < 2 ^ 63"
    using sint_lt [of ip] by simp
  ultimately have "ap \<noteq> MAX_INT64"
    by (auto simp: MAX_INT64_def)
  then show "((P, la, oflags, new, alen, aoffset, doffset, xs, over, m, e, s, t + 1, ip,
        if e \<le> t + 1 then MAX_INT64 else ipost (seed_at xs over (t + 1)), x2),
       P, la, oflags, new, alen, aoffset, doffset, xs, over, m, e, s, t, ip, ap, st)
      \<in> measure (\<lambda>(P, la, oflags, new, alen, aoffset, doffset, xs, over, m, e, s, t,
          ip, ap, st). (m - s) + (e - t) + (if ap = MAX_INT64 then 0 else 1))"
    by auto
next
  fix P :: Params and la :: aligner and oflags :: "32 word" and new :: bool
    and alen aoffset doffset :: int and xs :: "Seed list" and over :: Seed
    and m e s t :: nat and ip ap :: "64 word" and st x2 :: Sweep
  assume "\<not> m < s + 1"
  then show "((P, la, oflags, new, alen, aoffset, doffset, xs, over, m, e, s + 1, t,
        if m \<le> s + 1 then MAX_INT64 else ipost (seed_at xs over (s + 1)), ap, x2),
       P, la, oflags, new, alen, aoffset, doffset, xs, over, m, e, s, t, ip, ap, st)
      \<in> measure (\<lambda>(P, la, oflags, new, alen, aoffset, doffset, xs, over, m, e, s, t,
          ip, ap, st). (m - s) + (e - t) + (if ap = MAX_INT64 then 0 else 1))"
    by auto
qed

declare merge_loop.simps [simp del]

text \<open>
  \<^verbatim>\<open>while (ndiag == d && e < end) { e += swide; memcpy(_ndiag,e,DBYTE); }\<close>.  The
  variable \<^verbatim>\<open>ndiag\<close> always holds the bucket of the record at \<open>e\<close>.
\<close>

function scan_diag :: "Seed list \<Rightarrow> Seed \<Rightarrow> int \<Rightarrow> nat \<Rightarrow> nat" where
  "scan_diag xs over d e =
     (if dbuck (seed_at xs over e) = d \<and> e < length xs then scan_diag xs over d (e + 1) else e)"
  by pat_completeness auto
termination
  by (relation "measure (\<lambda>(xs, over, d, e). length xs - e)") auto

declare scan_diag.simps [simp del]

text \<open>
  The block of line 2716 for the window \<open>(b, m, e)\<close> on the buckets \<open>cdiag\<close> and
  \<open>cdiag + 1\<close>: it sets \<^verbatim>\<open>doffset\<close>, \<^verbatim>\<open>alast\<close>, \<^verbatim>\<open>lps\<close>, \<^verbatim>\<open>cov\<close> and runs the merge.
\<close>

definition examine ::
    "Params \<Rightarrow> aligner \<Rightarrow> 32 word \<Rightarrow> bool \<Rightarrow> int \<Rightarrow> int \<Rightarrow> Seed list \<Rightarrow> Seed
     \<Rightarrow> nat \<Rightarrow> nat \<Rightarrow> nat \<Rightarrow> int \<Rightarrow> bool \<Rightarrow> Sweep \<Rightarrow> error + Sweep" where
  "examine P la oflags new alen blen xs over b m e cdiag aux st0 =
     (let aoffset = alen - KMER P;
          doffset = (if oflags \<noteq> 0 then aoffset - push_bit BUCK_SHIFT cdiag
                     else push_bit BUCK_SHIFT cdiag - blen);
          st = st0\<lparr>lps := - CHAIN_BREAK P, cov := 0, chain := None,
                   alast := (if oflags \<noteq> 0 then alen + 1 else - 1)\<rparr>
      in merge_loop P la oflags new alen aoffset doffset xs over m e b m
           (ipost (seed_at xs over b))
           (if aux then ipost (seed_at xs over m) else MAX_INT64) st)"

text \<open>
  The loop \<^verbatim>\<open>while (1)\<close> of line 2707 over the windows; \<open>e\<close> is the value of \<^verbatim>\<open>e\<close> on
  entry, which becomes \<^verbatim>\<open>m\<close>.
\<close>

function windows ::
    "Params \<Rightarrow> aligner \<Rightarrow> 32 word \<Rightarrow> int \<Rightarrow> int \<Rightarrow> Seed list \<Rightarrow> Seed
     \<Rightarrow> nat \<Rightarrow> nat \<Rightarrow> int \<Rightarrow> bool \<Rightarrow> Sweep \<Rightarrow> error + Sweep" where
  "windows P la oflags alen blen xs over b e cdiag new st =
     (case (if new \<or> e < scan_diag xs over (cdiag + 1) e
            then examine P la oflags new alen blen xs over b e
                   (scan_diag xs over (cdiag + 1) e) cdiag
                   (e < scan_diag xs over (cdiag + 1) e) st
            else Inr st) of
        Inl x \<Rightarrow> Inl x
      | Inr st1 \<Rightarrow>
          if scan_diag xs over (cdiag + 1) e \<ge> length xs then Inr st1
          else if e < scan_diag xs over (cdiag + 1) e
            then windows P la oflags alen blen xs over e
                   (scan_diag xs over (cdiag + 1) e) (cdiag + 1) False st1
          else windows P la oflags alen blen xs over
                 (scan_diag xs over (cdiag + 1) e)
                 (scan_diag xs over
                    (dbuck (seed_at xs over (scan_diag xs over (cdiag + 1) e)))
                    (scan_diag xs over (cdiag + 1) e))
                 (dbuck (seed_at xs over (scan_diag xs over (cdiag + 1) e))) True st1)"
  by pat_completeness auto
termination
proof (relation "measure (\<lambda>(P, la, oflags, alen, blen, xs, over, b, e, cdiag, new, st).
          length xs - e)", goal_cases)
  case 1
  show ?case by simp
next
  case (2 P la oflags alen blen xs over b e cdiag new st x2)
  then show ?case by auto
next
  case (3 P la oflags alen blen xs over b e cdiag new st x2)
  have ge: "k \<le> scan_diag xs over d k" for d k
    by (induction xs over d k rule: scan_diag.induct)
      (subst scan_diag.simps, auto simp del: scan_diag.simps)
  define e1 where "e1 = scan_diag xs over (cdiag + 1) e"
  have "e1 = e"
    using 3 ge [of e "cdiag + 1"] by (simp add: e1_def)
  moreover have "e1 < length xs"
    using 3 by (simp add: e1_def)
  moreover have "e1 < scan_diag xs over (dbuck (seed_at xs over e1)) e1"
    using \<open>e1 < length xs\<close> ge [of "e1 + 1" "dbuck (seed_at xs over e1)"]
    by (subst scan_diag.simps) simp
  ultimately show ?case
    by (simp add: e1_def [symmetric])
qed

declare windows.simps [simp del]

text \<open>
  The chain search of \<^verbatim>\<open>align_contigs\<close> (lines 2693-3028).  The variable \<^verbatim>\<open>new\<close> is
  declared at line 2663 without an initialiser and first read at line 2716; \<open>new0\<close> is the
  value it happens to hold there.
\<close>

definition chain_search ::
    "Params \<Rightarrow> aligner \<Rightarrow> 32 word \<Rightarrow> bool \<Rightarrow> int \<Rightarrow> int \<Rightarrow> Seed list \<Rightarrow> Seed
     \<Rightarrow> error + Sweep" where
  "chain_search P la oflags new0 alen blen xs over =
     windows P la oflags alen blen xs over 0
       (scan_diag xs over (dbuck (seed_at xs over 0)) 0) (dbuck (seed_at xs over 0)) new0
       \<lparr>lps = 0, cov = 0, chain = None, alast = 0, nhit = 0, tfile = [], aligned = []\<rparr>"

text \<open>
  \<^verbatim>\<open>qsort_r\<close> with \<^verbatim>\<open>ALN_SORT\<close> orders the overlaps by \<open>abpos\<close>; the model takes the stable
  order.
\<close>

definition ALN_SORT :: "Overlap list \<Rightarrow> Overlap list" where
  "ALN_SORT os = sort_key (\<lambda>w. abpos (path w)) os"

text \<open>
  \<^verbatim>\<open>align_contigs\<close>: the chain search, then the two passes over the overlaps of the
  temporary file, then the output of the survivors (lines 3205-3214).
\<close>

definition align_contigs ::
    "Params \<Rightarrow> aligner \<Rightarrow> 32 word \<Rightarrow> bool \<Rightarrow> int \<Rightarrow> int \<Rightarrow> Seed list \<Rightarrow> Seed
     \<Rightarrow> error + Overlap list" where
  "align_contigs P la oflags new0 alen blen xs over =
     (case chain_search P la oflags new0 alen blen xs over of
        Inl x \<Rightarrow> Inl x
      | Inr st \<Rightarrow>
          if tfile st = [] then Inr []
          else (case pass2 (pass1 (ALN_SORT (tfile st))) of
                  None \<Rightarrow> Inl TraceRead
                | Some os \<Rightarrow> Inr (filter (\<lambda>w. \<not> is_eliminated w) os)))"

section \<open>Re-import of the packed seed records\<close>

text \<open>
  The byte widths of the packed records (globals set in \<^verbatim>\<open>main\<close>) and the number of
  parts.  Bytes are naturals below 256; multi-byte fields are little-endian, as the
  \<^verbatim>\<open>memcpy\<close>s into the low bytes of \<^verbatim>\<open>int64\<close> variables assume.
\<close>

record Layout =
  IPOST  :: nat
  ICONT  :: nat
  JPOST  :: nat
  JCONT  :: nat
  DBYTE  :: nat
  NPARTS :: nat

definition le_val :: "nat list \<Rightarrow> int" where
  "le_val bs = foldr (\<lambda>b v. int b + 256 * v) bs 0"

definition le_bytes :: "nat \<Rightarrow> int \<Rightarrow> nat list" where
  "le_bytes n v = map (\<lambda>i. nat ((v div 256 ^ i) mod 256)) [0..<n]"

text \<open>
  \<^verbatim>\<open>memcpy(&v, b, n)\<close> replaces the \<open>n\<close> low bytes of the variable and keeps the others.
\<close>

definition memcpy_in :: "nat \<Rightarrow> int \<Rightarrow> nat list \<Rightarrow> int" where
  "memcpy_in n old bs = (old div 256 ^ n) * 256 ^ n + le_val bs"

record Vars =
  v_ipost :: int
  v_jpost :: int
  v_icont :: int
  v_jcont :: int

datatype io_error = NegativeCopy | BuckRange | ReadRange

text \<open>
  The body of the loop for one packed record \<open>[lcp, a-post, a-contig, b-post, b-contig]\<close>
  (lines 2339-2368), apart from the choice of the slot.  \<open>rlens\<close> lists
  \<^verbatim>\<open>jreads[Perm2[j]].rlen\<close> for the b-contigs \<open>j\<close>; \<open>cmp\<close> is \<^verbatim>\<open>comp\<close>.  The result is the
  variables after the record, the a-contig and the sort record.
\<close>

definition import_record ::
    "Layout \<Rightarrow> int \<Rightarrow> bool \<Rightarrow> int list \<Rightarrow> Vars \<Rightarrow> nat list
     \<Rightarrow> io_error + (Vars \<times> int \<times> nat list)" where
  "import_record L kmer cmp rlens v bs =
     (let l = int (hd bs);
          ip = memcpy_in (IPOST L) (v_ipost v) (take (IPOST L) (drop 1 bs));
          ic = memcpy_in (ICONT L) (v_icont v)
                 (take (ICONT L) (drop (1 + IPOST L) bs));
          jp = memcpy_in (JPOST L) (v_jpost v)
                 (take (JPOST L) (drop (1 + IPOST L + ICONT L) bs));
          jc0 = memcpy_in (JCONT L) (v_jcont v)
                 (take (JCONT L) (drop (1 + IPOST L + ICONT L + JPOST L) bs));
          flag = (2::int) ^ (8 * JCONT L - 1);
          flip = (jc0 AND flag \<noteq> 0);
          jc = jc0 AND (flag - 1)
      in if cmp then
           (let drm = ip + jp; pdiag = drop_bit BUCK_SHIFT drm in
            Inr (\<lparr>v_ipost = ip, v_jpost = jp, v_icont = ic, v_jcont = jc\<rparr>, ic,
                 [nat l, nat ((drm - push_bit BUCK_SHIFT pdiag) mod 256)]
                 @ le_bytes (IPOST L) ip @ le_bytes (DBYTE L) pdiag @ le_bytes (JCONT L) jc))
         else if 0 \<le> jc \<and> jc < int (length rlens) then
           (let drm = (ip - jp) + rlens ! nat jc;
                ip1 = (if flip then ip + (kmer - l) else ip);
                pdiag = drop_bit BUCK_SHIFT drm
            in Inr (\<lparr>v_ipost = ip1, v_jpost = jp, v_icont = ic, v_jcont = jc\<rparr>, ic,
                 [nat l, nat ((drm - push_bit BUCK_SHIFT pdiag) mod 256)]
                 @ le_bytes (IPOST L) ip1 @ le_bytes (DBYTE L) pdiag @ le_bytes (JCONT L) jc))
         else Inl ReadRange)"

text \<open>
  The state of \<^verbatim>\<open>reimport_thread\<close>: the buffer \<open>bufr\<close> as a memory of bytes (it holds
  whatever the merge left there), the offsets \<open>bpos\<close> (the pointer \<^verbatim>\<open>b\<close>), \<open>btop\<close>, \<open>bend\<close> into it, the rest of
  the file, the variables, the array \<open>buck\<close> and the records written to the sort array
  with their slots.
\<close>

record Reimport =
  bufr :: "nat \<Rightarrow> nat"
  bpos :: nat
  btop :: int
  bend :: nat
  rest :: "nat list"
  vars :: Vars
  buck :: "nat list"
  sarr :: "(nat \<times> nat list) list"

definition iolen :: "Layout \<Rightarrow> nat" where
  "iolen L = 2 * NPARTS L * 1000000"

definition iunit :: "Layout \<Rightarrow> nat" where
  "iunit L = (IPOST L + ICONT L) + (JPOST L + JCONT L) + 1"

text \<open>
  \<^verbatim>\<open>read(in, bufr+off, n)\<close> on a regular file: the next \<open>min n (length rest)\<close> bytes.
\<close>

definition read_into :: "(nat \<Rightarrow> nat) \<Rightarrow> nat \<Rightarrow> nat \<Rightarrow> nat list \<Rightarrow> (nat \<Rightarrow> nat)" where
  "read_into mem off n data =
     (\<lambda>i. if off \<le> i \<and> i < off + min n (length data) then data ! (i - off) else mem i)"

text \<open>
  The loop \<^verbatim>\<open>while (1)\<close> of line 2338: a record is imported first, the test for the end
  of the buffer and of the file comes after it.  \<^verbatim>\<open>memcpy(bufr,b,ex)\<close> with a negative
  \<^verbatim>\<open>ex\<close> is the error \<open>NegativeCopy\<close>.
\<close>

function reimport_loop ::
    "Layout \<Rightarrow> int \<Rightarrow> bool \<Rightarrow> int list \<Rightarrow> Reimport \<Rightarrow> io_error + Reimport" where
  "reimport_loop L kmer cmp rlens st =
     (case import_record L kmer cmp rlens (vars st)
             (map (bufr st) [bpos st ..< bpos st + iunit L]) of
        Inl x \<Rightarrow> Inl x
      | Inr (v, ic, r) \<Rightarrow>
          if 0 \<le> ic \<and> ic < int (length (buck st)) then
            (let st1 = st\<lparr>vars := v, bpos := bpos st + iunit L,
                         sarr := sarr st @ [(buck st ! nat ic, r)],
                         buck := (buck st)[nat ic := buck st ! nat ic + 1]\<rparr>
             in if int (bpos st1) \<ge> btop st1 then
                  (if int (bend st1) - int (bpos st1) < 0 then Inl NegativeCopy
                   else
                     (let ex = bend st1 - bpos st1;
                          mem1 = (\<lambda>i. if i < ex then bufr st1 (bpos st1 + i) else bufr st1 i);
                          k = min (iolen L - ex) (length (rest st1));
                          st2 = st1\<lparr>bufr := read_into mem1 ex (iolen L - ex) (rest st1),
                                     bend := ex + k, rest := drop k (rest st1), bpos := 0\<rparr>
                      in if bend st2 = 0 then Inr st2
                         else reimport_loop L kmer cmp rlens
                                (st2\<lparr>btop := (if bend st2 < iolen L then int (bend st2)
                                                else int (bend st2) - int (iunit L))\<rparr>)))
                else reimport_loop L kmer cmp rlens st1)
          else Inl BuckRange)"
  by pat_completeness auto
termination
proof (relation "measures [\<lambda>(L, kmer, cmp, rlens, st). length (rest st),
                           \<lambda>(L, kmer, cmp, rlens, st).
                              nat (max (int (bend st)) (btop st) - int (bpos st))]",
    goal_cases)
  case 1
  show ?case by simp
next
  case (2 L kmer cmp rlens st a v p ic r st1 ex mem1 k st2)
  then show ?case
    by (auto simp: iunit_def min_def)
next
  case (3 L kmer cmp rlens st a v p ic r st1)
  then show ?case
    by (auto simp: iunit_def)
qed

declare reimport_loop.simps [simp del]

text \<open>
  \<^verbatim>\<open>reimport_thread\<close>: the first \<^verbatim>\<open>read\<close>, the initial offsets and the loop.  \<open>mem0\<close> is the
  content of the buffer on entry, \<open>file\<close> the bytes of the shard file.
\<close>

definition reimport_thread ::
    "Layout \<Rightarrow> int \<Rightarrow> bool \<Rightarrow> int list \<Rightarrow> (nat \<Rightarrow> nat) \<Rightarrow> nat list \<Rightarrow> nat list
     \<Rightarrow> io_error + Reimport" where
  "reimport_thread L kmer cmp rlens mem0 buck0 file =
     (let k = min (iolen L) (length file) in
      reimport_loop L kmer cmp rlens
        \<lparr>bufr = read_into mem0 0 (iolen L) file, bpos = 0,
         btop = (if k < iolen L then int k else int k - int (iunit L)),
         bend = k, rest = drop k file,
         vars = \<lparr>v_ipost = 0, v_jpost = 0, v_icont = 0, v_jcont = 0\<rparr>,
         buck = buck0, sarr = []\<rparr>)"

section \<open>The adaptamer merge within one prefix panel\<close>

text \<open>
  A k-mer table entry of \<^verbatim>\<open>KBYTE\<close> bytes: the suffix bytes (2 bits per base, from base 12
  on), the count byte at \<^verbatim>\<open>CBYTE\<close> and the lcp byte at \<^verbatim>\<open>LBYTE\<close>.  The cache holds the
  entries of T2 with the prefix of the panel; pointers into it are entry indices, and
  \<open>ctop\<close> is the entry at \<^verbatim>\<open>ctop\<close>, whose lcp byte the code sets to 11.
\<close>

record Entry =
  e_suf :: "nat list"
  e_cnt :: nat
  e_lcp :: nat

definition cbyte :: "nat list" where
  "cbyte = [0, 0, 0, 0, 0, 0, 0, 0, 0, 0, 0, 0,
            0, 0, 0, 0, 1, 1, 1, 1, 2, 2, 2, 2,
            3, 3, 3, 3, 4, 4, 4, 4, 5, 5, 5, 5,
            6, 6, 6, 6, 7]"

definition mbyte :: "nat list" where
  "mbyte = [0, 0, 0, 0, 0, 0, 0, 0, 0, 0, 0, 0,
            0xc0, 0x30, 0x0c, 0x03, 0xc0, 0x30, 0x0c, 0x03, 0xc0, 0x30, 0x0c, 0x03,
            0xc0, 0x30, 0x0c, 0x03, 0xc0, 0x30, 0x0c, 0x03, 0xc0, 0x30, 0x0c, 0x03,
            0xc0, 0x30, 0x0c, 0x03, 0xc0]"

definition POST_BUF_LEN :: nat where
  "POST_BUF_LEN = 0x1000"

definition POST_BUF_MASK :: nat where
  "POST_BUF_MASK = 0x0fff"

text \<open>
  A seed record written to a shard file: \<open>r_same\<close> tells the N-file (equal signs) from
  the C-file, \<open>r_dest\<close> is the part \<^verbatim>\<open>Select[acont]\<close>, then the three fields of the record.
\<close>

record SeedRec =
  r_same  :: bool
  r_dest  :: nat
  r_lcp   :: nat
  r_apost :: nat
  r_bpost :: nat

text \<open>
  The variables of \<^verbatim>\<open>merge_thread\<close> that live across T1 entries.  \<open>post\<close> is the array
  \<^verbatim>\<open>post[POST_BUF_LEN + FREQ]\<close>, \<open>p1idx\<close> and \<open>p2idx\<close> are the cursors of the position
  lists P1 and P2, \<open>vlow = -1\<close> stands for \<^verbatim>\<open>cache-KBYTE\<close>, \<open>emitted\<close> are the records written
  so far.
\<close>

record Merge =
  plen    :: nat
  rend    :: nat
  eorun   :: bool
  vlcp    :: "nat \<Rightarrow> nat"
  vlow    :: int
  vhgh    :: nat
  pdx     :: nat
  cdx     :: nat
  post    :: "nat \<Rightarrow> nat"
  p1idx   :: nat
  p2idx   :: nat
  emitted :: "SeedRec list"
  nhits   :: nat
  g1len   :: nat
  tseed   :: nat

definition centry :: "Entry list \<Rightarrow> Entry \<Rightarrow> nat \<Rightarrow> Entry" where
  "centry c ctop i = (if i < length c then c ! i else ctop)"

text \<open>The loop of the macro \<^verbatim>\<open>ADVANCE\<close> that loads \<open>n\<close> positions of P2 into the ring.\<close>

fun load_posts :: "(nat \<Rightarrow> nat) \<Rightarrow> nat \<Rightarrow> Merge \<Rightarrow> Merge" where
  "load_posts P2 0 st = st"
| "load_posts P2 (Suc n) st =
     load_posts P2 n
       (st\<lparr>pdx := (pdx st + 1) AND POST_BUF_MASK,
           post := (post st)((pdx st + 1) AND POST_BUF_MASK := P2 (p2idx st)),
           p2idx := p2idx st + 1\<rparr>)"

text \<open>
  \<^verbatim>\<open>ADVANCE(l)\<close> without the final \<^verbatim>\<open>l += KBYTE\<close>, which the callers do on their pointer.
\<close>

definition ADVANCE :: "Entry list \<Rightarrow> Entry \<Rightarrow> (nat \<Rightarrow> nat) \<Rightarrow> nat \<Rightarrow> Merge \<Rightarrow> Merge" where
  "ADVANCE c ctop P2 l st =
     (let st1 = (if l \<ge> vhgh st
                 then (load_posts P2 (e_cnt (centry c ctop l)) st)\<lparr>vhgh := l + 1\<rparr>
                 else st)
      in st1\<lparr>cdx := (cdx st1 + e_cnt (centry c ctop l)) AND POST_BUF_MASK\<rparr>)"

text \<open>
  \<^verbatim>\<open>while (rend[LBYTE] > nlcp) ADVANCE(rend)\<close> with \<open>r\<close> for \<^verbatim>\<open>rend\<close>.  A read behind the
  entry at \<^verbatim>\<open>ctop\<close> is outside the cache: \<open>None\<close>.
\<close>

function skip_run ::
    "Entry list \<Rightarrow> Entry \<Rightarrow> (nat \<Rightarrow> nat) \<Rightarrow> nat \<Rightarrow> nat \<Rightarrow> Merge \<Rightarrow> (nat \<times> Merge) option" where
  "skip_run c ctop P2 nlcp r st =
     (if r > length c then None
      else if e_lcp (centry c ctop r) > nlcp
        then skip_run c ctop P2 nlcp (r + 1) (ADVANCE c ctop P2 r st)
      else Some (r, st))"
  by pat_completeness auto
termination
  by (relation "measure (\<lambda>(c, ctop, P2, nlcp, r, st). length c + 1 - r)") auto

declare skip_run.simps [simp del]

text \<open>
  The adjustment by the lcp of the T1 entry with its predecessor (lines 1952-1976).  The
  flag of the result says whether control goes to \<^verbatim>\<open>pairs\<close> directly.
\<close>

definition adjust ::
    "Entry list \<Rightarrow> Entry \<Rightarrow> (nat \<Rightarrow> nat) \<Rightarrow> Entry \<Rightarrow> Merge \<Rightarrow> (bool \<times> Merge) option" where
  "adjust c ctop P2 suf1 st =
     (if e_lcp suf1 > plen st then Some (True, st)
      else if e_lcp suf1 = plen st then Some (eorun st, st)
      else
        (case (if \<not> eorun st
               then skip_run c ctop P2 (e_lcp suf1) (rend st + 1) (ADVANCE c ctop P2 (rend st) st)
               else skip_run c ctop P2 (e_lcp suf1) (rend st) st) of
           None \<Rightarrow> None
         | Some (r1, st1) \<Rightarrow>
             if e_lcp (centry c ctop r1) < e_lcp suf1
             then Some (True, st1\<lparr>rend := r1, eorun := True, plen := e_lcp suf1\<rparr>)
             else Some (False, st1\<lparr>rend := r1, plen := e_lcp (centry c ctop r1),
                                    eorun := False\<rparr>)))"

text \<open>
  The loop \<^verbatim>\<open>for (d = rend[h]&m; d < c; d = rend[h]&m)\<close> of line 1984: \<open>Inl\<close> when it leaves
  to \<^verbatim>\<open>pairs\<close> with \<^verbatim>\<open>eorun = 1\<close>, \<open>Inr\<close> with the last \<open>d\<close> when it ends.
\<close>

function scan_less ::
    "Entry list \<Rightarrow> Entry \<Rightarrow> (nat \<Rightarrow> nat) \<Rightarrow> nat \<Rightarrow> nat \<Rightarrow> nat \<Rightarrow> nat \<Rightarrow> nat \<Rightarrow> Merge
     \<Rightarrow> ((nat \<times> Merge) + (nat \<times> Merge \<times> nat)) option" where
  "scan_less c ctop P2 h m cc pl r st =
     (if r > length c then None
      else if (e_suf (centry c ctop r) ! h) AND m < cc then
        (if r + 1 > length c then None
         else if e_lcp (centry c ctop (r + 1)) < pl
           then Some (Inl (r + 1, ADVANCE c ctop P2 r st))
         else scan_less c ctop P2 h m cc pl (r + 1) (ADVANCE c ctop P2 r st))
      else Some (Inr (r, st, (e_suf (centry c ctop r) ! h) AND m)))"
  by pat_completeness auto
termination
  by (relation "measure (\<lambda>(c, ctop, P2, h, m, cc, pl, r, st). length c + 1 - r)") auto

declare scan_less.simps [simp del]

text \<open>
  The loop \<^verbatim>\<open>while (plen < KMER)\<close> and the two statements behind it (lines 1978-1997),
  with \<open>pl\<close> for \<^verbatim>\<open>plen\<close> and \<open>r\<close> for \<^verbatim>\<open>rend\<close>; the result is the state at \<^verbatim>\<open>pairs\<close>.
\<close>

function extend ::
    "nat \<Rightarrow> Entry list \<Rightarrow> Entry \<Rightarrow> (nat \<Rightarrow> nat) \<Rightarrow> Entry \<Rightarrow> nat \<Rightarrow> nat \<Rightarrow> Merge
     \<Rightarrow> Merge option" where
  "extend K c ctop P2 suf1 pl r st =
     (if pl < K then
        (case scan_less c ctop P2 (cbyte ! pl) (mbyte ! pl)
                ((e_suf suf1 ! (cbyte ! pl)) AND (mbyte ! pl)) pl r st of
           None \<Rightarrow> None
         | Some (Inl (r1, st1)) \<Rightarrow> Some (st1\<lparr>plen := pl, rend := r1, eorun := True\<rparr>)
         | Some (Inr (r1, st1, d)) \<Rightarrow>
             if d > (e_suf suf1 ! (cbyte ! pl)) AND (mbyte ! pl)
             then Some (st1\<lparr>plen := pl, rend := r1\<rparr>)
             else extend K c ctop P2 suf1 (pl + 1) r1 (st1\<lparr>vlcp := (vlcp st1)(pl + 1 := r1)\<rparr>))
      else if r > length c then None
      else Some ((ADVANCE c ctop P2 r st)\<lparr>plen := pl, rend := r + 1, eorun := True\<rparr>))"
  by pat_completeness auto
termination
  by (relation "measure (\<lambda>(K, c, ctop, P2, suf1, pl, r, st). K - pl)") auto

declare extend.simps [simp del]

text \<open>
  The block at \<^verbatim>\<open>pairs\<close>.  First the sum of the counts from \<^verbatim>\<open>rend-KBYTE\<close> down to
  \<^verbatim>\<open>vcp\<close> (lines 2026-2036), with \<open>l1\<close> one above the pointer \<^verbatim>\<open>l\<close>: \<open>Inl l\<close> when the sum
  reaches \<open>F\<close> (the cutoff \<^verbatim>\<open>FREQ\<close>) at \<open>l\<close>, \<open>Inr\<close> of the sum otherwise.
\<close>

function back_scan :: "Entry list \<Rightarrow> Entry \<Rightarrow> nat \<Rightarrow> nat \<Rightarrow> nat \<Rightarrow> nat \<Rightarrow> nat + nat" where
  "back_scan c ctop F vcp l1 freq =
     (if l1 > vcp then
        (if freq + e_cnt (centry c ctop (l1 - 1)) \<ge> F then Inl (l1 - 1)
         else back_scan c ctop F vcp (l1 - 1) (freq + e_cnt (centry c ctop (l1 - 1))))
      else Inr freq)"
  by pat_completeness auto
termination
  by (relation "measure (\<lambda>(c, ctop, F, vcp, l1, freq). l1)") auto

declare back_scan.simps [simp del]

text \<open>
  The loop \<^verbatim>\<open>while (l[LBYTE] >= plen)\<close> of line 2052: \<open>Inl\<close> when the sum reaches \<open>F\<close>,
  \<open>Inr\<close> of the sum when the run of entries ends.
\<close>

function look_ahead ::
    "Entry list \<Rightarrow> Entry \<Rightarrow> (nat \<Rightarrow> nat) \<Rightarrow> nat \<Rightarrow> nat \<Rightarrow> nat \<Rightarrow> nat \<Rightarrow> Merge
     \<Rightarrow> (Merge + (nat \<times> Merge)) option" where
  "look_ahead c ctop P2 F pl l freq st =
     (if l > length c then None
      else if e_lcp (centry c ctop l) \<ge> pl then
        (if freq + e_cnt (centry c ctop l) \<ge> F then Some (Inl st)
         else look_ahead c ctop P2 F pl (l + 1) (freq + e_cnt (centry c ctop l))
                (ADVANCE c ctop P2 l st))
      else Some (Inr (freq, st)))"
  by pat_completeness auto
termination
  by (relation "measure (\<lambda>(c, ctop, P2, F, pl, l, freq, st). length c + 1 - l)") auto

declare look_ahead.simps [simp del]

text \<open>
  The records for one position \<open>a\<close> of the T1 entry (lines 2087-2135): the sign bit of \<open>a\<close>
  is taken and cleared, the a-contig selects the part, and one record is written for each
  of the \<open>freq\<close> positions \<open>pst (bb + k)\<close>.
\<close>

definition seed_recs ::
    "Layout \<Rightarrow> (nat \<Rightarrow> nat) \<Rightarrow> nat \<Rightarrow> (nat \<Rightarrow> nat) \<Rightarrow> nat \<Rightarrow> nat \<Rightarrow> nat \<Rightarrow> SeedRec list" where
  "seed_recs L Select pl pst bb freq a =
     map (\<lambda>k. \<lparr>r_same = (bit a (8 * (IPOST L + ICONT L) - 1)
                          = bit (pst (bb + k)) (8 * (JPOST L + JCONT L) - 1)),
               r_dest = Select (drop_bit (8 * IPOST L)
                                  (unset_bit (8 * (IPOST L + ICONT L) - 1) a)),
               r_lcp = pl,
               r_apost = unset_bit (8 * (IPOST L + ICONT L) - 1) a,
               r_bpost = pst (bb + k)\<rparr>) [0..<freq]"

text \<open>
  Lines 2072-2155: the start \<^verbatim>\<open>b\<close> of the slice of the ring (a negative \<^verbatim>\<open>b\<close> is \<open>None\<close>),
  the copy of the wrapped part behind the ring, the statistics and the records for the
  \<^verbatim>\<open>suf1[CBYTE]\<close> positions of the T1 entry.
\<close>

definition emit ::
    "Layout \<Rightarrow> (nat \<Rightarrow> nat) \<Rightarrow> (nat \<Rightarrow> nat) \<Rightarrow> Entry \<Rightarrow> nat \<Rightarrow> nat \<Rightarrow> Merge \<Rightarrow> Merge option" where
  "emit L Select P1 suf1 lcs freq st =
     (if cdx st + POST_BUF_LEN < lcs then None
      else
        (let bb = (if cdx st \<ge> lcs then cdx st - lcs else (cdx st + POST_BUF_LEN) - lcs);
             pst = (if bb + freq > POST_BUF_LEN
                    then (\<lambda>i. if POST_BUF_LEN \<le> i
                                  \<and> i < POST_BUF_LEN + ((bb + freq) AND POST_BUF_MASK)
                               then post st (i - POST_BUF_LEN) else post st i)
                    else post st)
         in Some (st\<lparr>post := pst,
                     nhits := nhits st + e_cnt suf1 * freq,
                     g1len := g1len st + e_cnt suf1,
                     tseed := tseed st + e_cnt suf1 * freq * plen st,
                     emitted := emitted st @
                        concat (map (\<lambda>i. seed_recs L Select (plen st) pst bb freq
                                            (P1 (p1idx st + i))) [0..<e_cnt suf1]),
                     p1idx := p1idx st + e_cnt suf1\<rparr>)))"

text \<open>The label \<^verbatim>\<open>empty\<close>: the positions of the T1 entry are skipped.\<close>

definition skip_entry :: "Entry \<Rightarrow> Merge \<Rightarrow> Merge" where
  "skip_entry suf1 st = st\<lparr>p1idx := p1idx st + e_cnt suf1\<rparr>"

definition pairs ::
    "nat \<Rightarrow> Layout \<Rightarrow> (nat \<Rightarrow> nat) \<Rightarrow> Entry list \<Rightarrow> Entry \<Rightarrow> (nat \<Rightarrow> nat) \<Rightarrow> (nat \<Rightarrow> nat)
     \<Rightarrow> Entry \<Rightarrow> Merge \<Rightarrow> Merge option" where
  "pairs F L Select c ctop P1 P2 suf1 st =
     (if int (vlcp st (plen st)) \<le> vlow st then Some (skip_entry suf1 st)
      else
        (case back_scan c ctop F (vlcp st (plen st)) (rend st) 0 of
           Inl l \<Rightarrow> Some (skip_entry suf1 (st\<lparr>vlow := int l\<rparr>))
         | Inr lcs \<Rightarrow>
             if \<not> eorun st then
               (if lcs + e_cnt (centry c ctop (rend st)) \<ge> F then Some (skip_entry suf1 st)
                else
                  (case look_ahead c ctop P2 F (plen st) (rend st + 1)
                          (lcs + e_cnt (centry c ctop (rend st)))
                          (ADVANCE c ctop P2 (rend st) st) of
                     None \<Rightarrow> None
                   | Some (Inl st1) \<Rightarrow> Some (skip_entry suf1 (st1\<lparr>cdx := cdx st\<rparr>))
                   | Some (Inr (freq, st1)) \<Rightarrow>
                       emit L Select P1 suf1 lcs freq (st1\<lparr>cdx := cdx st\<rparr>)))
             else emit L Select P1 suf1 lcs lcs st))"

text \<open>The start of a panel with a non-empty cache (lines 1919-1925).\<close>

definition panel_init :: "Merge \<Rightarrow> Merge" where
  "panel_init st =
     st\<lparr>plen := 12, vlcp := (vlcp st)(12 := 0), rend := 0, vlow := - 1, vhgh := 0,
        pdx := POST_BUF_MASK, cdx := 0, eorun := False\<rparr>"

text \<open>
  One turn of the loop over T1 (lines 1860-2161) inside a panel; \<open>first\<close> holds for the
  entry that opens the panel.  \<open>F\<close> is \<^verbatim>\<open>FREQ\<close> and \<open>K\<close> is \<^verbatim>\<open>KMER\<close>.
\<close>

definition merge_entry ::
    "nat \<Rightarrow> nat \<Rightarrow> Layout \<Rightarrow> (nat \<Rightarrow> nat) \<Rightarrow> Entry list \<Rightarrow> Entry \<Rightarrow> (nat \<Rightarrow> nat)
     \<Rightarrow> (nat \<Rightarrow> nat) \<Rightarrow> bool \<Rightarrow> Entry \<Rightarrow> Merge \<Rightarrow> Merge option" where
  "merge_entry F K L Select c ctop P1 P2 first suf1 st =
     (case (if first then Some (False, panel_init st) else adjust c ctop P2 suf1 st) of
        None \<Rightarrow> None
      | Some (True, st1) \<Rightarrow> pairs F L Select c ctop P1 P2 suf1 st1
      | Some (False, st1) \<Rightarrow>
          (case extend K c ctop P2 suf1 (plen st1) (rend st1) st1 of
             None \<Rightarrow> None
           | Some st2 \<Rightarrow> pairs F L Select c ctop P1 P2 suf1 st2))"

fun merge_entries ::
    "nat \<Rightarrow> nat \<Rightarrow> Layout \<Rightarrow> (nat \<Rightarrow> nat) \<Rightarrow> Entry list \<Rightarrow> Entry \<Rightarrow> (nat \<Rightarrow> nat)
     \<Rightarrow> (nat \<Rightarrow> nat) \<Rightarrow> bool \<Rightarrow> Entry list \<Rightarrow> Merge \<Rightarrow> Merge option" where
  "merge_entries F K L Select c ctop P1 P2 first [] st = Some st"
| "merge_entries F K L Select c ctop P1 P2 first (x # xs) st =
     (case merge_entry F K L Select c ctop P1 P2 first x st of
        None \<Rightarrow> None
      | Some st1 \<Rightarrow> merge_entries F K L Select c ctop P1 P2 False xs st1)"

text \<open>
  The merge of one panel: \<open>t1\<close> are the entries of T1 with the prefix of the panel, \<open>c\<close>
  those of T2 as loaded into the cache, \<open>stale\<close> what the cache holds at \<^verbatim>\<open>ctop\<close>; the
  cursor \<open>p2idx\<close> is at the first position of the first cache entry.  With an empty cache
  the entries of T1 are skipped (lines 1904-1915).
\<close>

definition merge_panel ::
    "nat \<Rightarrow> nat \<Rightarrow> Layout \<Rightarrow> (nat \<Rightarrow> nat) \<Rightarrow> Entry list \<Rightarrow> Entry \<Rightarrow> (nat \<Rightarrow> nat)
     \<Rightarrow> (nat \<Rightarrow> nat) \<Rightarrow> Entry list \<Rightarrow> Merge \<Rightarrow> Merge option" where
  "merge_panel F K L Select c stale P1 P2 t1 st =
     (if c = [] then Some (st\<lparr>p1idx := p1idx st + sum_list (map e_cnt t1)\<rparr>)
      else merge_entries F K L Select c (stale\<lparr>e_lcp := 11\<rparr>) P1 P2 True t1 st)"

text \<open>Two pairs of alignments used as concrete inputs below.\<close>

definition wide_o :: Overlap where
  "wide_o = mk_ovl 0 0 300 300 0 [0, 100, 0, 100, 0, 100]"

definition inner_w :: Overlap where
  "inner_w = mk_ovl 100 150 200 250 0 [0, 100]"

definition short_o :: Overlap where
  "short_o = mk_ovl 0 0 200 200 0 [0, 100, 0, 100]"

definition long_w :: Overlap where
  "long_w = mk_ovl 100 90 400 205 0 [0, 38, 0, 38, 0, 39]"

text \<open>Parameters, an aligner and seed records used as concrete inputs below.\<close>

definition demo_P :: Params where
  "demo_P = \<lparr>CHAIN_BREAK = 500, CHAIN_MIN = 25, ALIGN_MIN = 20, KMER = 40\<rparr>"

definition demo_la :: aligner where
  "demo_la = (\<lambda>dmin dmax anti.
     (\<lparr>abpos = 0, bbpos = 0, aepos = 30, bepos = 30, diffs = 0\<rparr>, [0, 30]))"

definition mk_seed :: "int \<Rightarrow> int \<Rightarrow> 64 word \<Rightarrow> int \<Rightarrow> Seed" where
  "mk_seed l d i b = \<lparr>lcp = l, drem = d, ipost = i, dbuck = b\<rparr>"

definition near_seeds :: "Seed list" where
  "near_seeds = [mk_seed 20 0 0 5, mk_seed 20 0 10 5]"

definition far_seeds :: "Seed list" where
  "far_seeds = [mk_seed 20 0 0 5, mk_seed 20 0 510 5]"

definition demo_chain :: Chain where
  "demo_chain = \<lparr>mix = 1, jlist = [\<lparr>jpost = 0, jlcp = 20\<rparr>, \<lparr>jpost = 10, jlcp = 20\<rparr>],
                  dgmin = 0, dgmax = 0, apmin = 0\<rparr>"

definition demo_st :: Sweep where
  "demo_st = \<lparr>lps = 30, cov = 30, chain = Some demo_chain, alast = - 1, nhit = 0,
               tfile = [], aligned = []\<rparr>"

text \<open>
  A layout and one packed record: lcp 20, a-post 1000 on a-contig 1, b-post 300 on
  b-contig 0 with the flip bit set.
\<close>

definition demo_L :: Layout where
  "demo_L = \<lparr>IPOST = 4, ICONT = 2, JPOST = 4, JCONT = 2, DBYTE = 4, NPARTS = 1\<rparr>"

definition demo_rec :: "nat list" where
  "demo_rec = [20, 232, 3, 0, 0, 1, 0, 44, 1, 0, 0, 0, 128]"

definition zero_vars :: Vars where
  "zero_vars = \<lparr>v_ipost = 0, v_jpost = 0, v_icont = 0, v_jcont = 0\<rparr>"

section \<open>The range of cache entries of a T1 entry and the invariant of the merge\<close>

text \<open>
  The sum of the count bytes of the cache entries \<open>i, \<dots>, j - 1\<close>.
\<close>

definition cnt_sum :: "Entry list \<Rightarrow> Entry \<Rightarrow> nat \<Rightarrow> nat \<Rightarrow> nat" where
  "cnt_sum c ctop i j = sum_list (map (\<lambda>k. e_cnt (centry c ctop k)) [i..<j])"

text \<open>
  The end of the run of cache entries from \<open>l\<close> on whose lcp byte is at least \<open>pl\<close>: these
  entries share their first \<open>pl\<close> bases with the entry before them.
\<close>

function run_end :: "Entry list \<Rightarrow> nat \<Rightarrow> nat \<Rightarrow> nat" where
  "run_end c pl l = (if l < length c \<and> e_lcp (c ! l) \<ge> pl then run_end c pl (l + 1) else l)"
  by pat_completeness auto
termination
  by (relation "measure (\<lambda>(c, pl, l). length c - l)") auto

declare run_end.simps [simp del]

text \<open>
  At the label \<^verbatim>\<open>pairs\<close> the entries of T2 that share the prefix of length \<^verbatim>\<open>plen\<close> with the
  T1 entry are those from \<^verbatim>\<open>vlcp[plen]\<close> up to \<^verbatim>\<open>rend\<close> when \<^verbatim>\<open>eorun\<close> is set, and up to the
  end of the run that goes on behind \<^verbatim>\<open>rend\<close> otherwise (the comments of lines 1949-1950).
  \<open>range_total\<close> is the number of positions of T2 in that range, the quantity the cutoff
  is about; it is defined from the cache alone, not from the sums the code forms.
\<close>

definition range_end :: "Entry list \<Rightarrow> Merge \<Rightarrow> nat" where
  "range_end c st = (if eorun st then rend st else run_end c (plen st) (rend st + 1))"

definition range_total :: "Entry list \<Rightarrow> Entry \<Rightarrow> Merge \<Rightarrow> nat" where
  "range_total c ctop st = cnt_sum c ctop (vlcp st (plen st)) (range_end c st)"

text \<open>
  The invariant of the loop over the T1 entries of a panel.  \<^verbatim>\<open>vlow\<close> is either below the
  cache or an entry below \<^verbatim>\<open>rend\<close> from which the counts up to \<^verbatim>\<open>rend\<close> reach the cutoff;
  the pointers \<^verbatim>\<open>vlcp[12..plen]\<close> are not behind \<^verbatim>\<open>rend\<close>, and are below it when \<^verbatim>\<open>eorun\<close> is
  set; \<^verbatim>\<open>rend\<close> is an entry of the cache unless \<^verbatim>\<open>eorun\<close> is set, when it may be \<^verbatim>\<open>ctop\<close>.
\<close>

definition low_ok :: "Entry list \<Rightarrow> Entry \<Rightarrow> nat \<Rightarrow> int \<Rightarrow> nat \<Rightarrow> bool" where
  "low_ok c ctop F lo r \<longleftrightarrow>
     lo = - 1 \<or> (0 \<le> lo \<and> nat lo < r \<and> F \<le> cnt_sum c ctop (nat lo) r)"

definition minv ::
    "Entry list \<Rightarrow> Entry \<Rightarrow> nat \<Rightarrow> nat \<Rightarrow> nat \<Rightarrow> bool \<Rightarrow> (nat \<Rightarrow> nat) \<Rightarrow> int \<Rightarrow> bool" where
  "minv c ctop F pl r eo vl lo \<longleftrightarrow>
     12 \<le> pl \<and> r \<le> length c \<and> (eo \<or> r < length c) \<and> (\<forall>k\<in>{12..pl}. vl k \<le> r)
     \<and> (eo \<longrightarrow> (\<forall>k\<in>{12..pl}. vl k < r)) \<and> low_ok c ctop F lo r"

definition merge_inv :: "Entry list \<Rightarrow> Entry \<Rightarrow> nat \<Rightarrow> Merge \<Rightarrow> bool" where
  "merge_inv c ctop F st = minv c ctop F (plen st) (rend st) (eorun st) (vlcp st) (vlow st)"

text \<open>
  \<open>frame\<close>: a step that only moves the ring of positions and its cursors.  \<open>keeps\<close>: a step
  that writes no record and leaves the cursor of P1 alone.
\<close>

definition frame :: "Merge \<Rightarrow> Merge \<Rightarrow> bool" where
  "frame st st1 \<longleftrightarrow>
     plen st1 = plen st \<and> rend st1 = rend st \<and> eorun st1 = eorun st \<and> vlcp st1 = vlcp st
     \<and> vlow st1 = vlow st \<and> p1idx st1 = p1idx st \<and> emitted st1 = emitted st
     \<and> nhits st1 = nhits st \<and> g1len st1 = g1len st \<and> tseed st1 = tseed st"

definition keeps :: "Merge \<Rightarrow> Merge \<Rightarrow> bool" where
  "keeps st st1 \<longleftrightarrow>
     p1idx st1 = p1idx st \<and> emitted st1 = emitted st \<and> nhits st1 = nhits st"

text \<open>
  The records of one T1 entry: for each of its \<^verbatim>\<open>suf1[CBYTE]\<close> positions in P1, from the
  cursor \<open>p1\<close> on, one record for each of the \<open>freq\<close> slots of the ring from \<open>bb\<close> on.
\<close>

definition seeds_of ::
    "Layout \<Rightarrow> (nat \<Rightarrow> nat) \<Rightarrow> (nat \<Rightarrow> nat) \<Rightarrow> Entry \<Rightarrow> nat \<Rightarrow> nat \<Rightarrow> nat
     \<Rightarrow> (nat \<Rightarrow> nat) \<Rightarrow> nat \<Rightarrow> SeedRec list" where
  "seeds_of L Sel P1 suf1 pl p1 freq pst bb =
     concat (map (\<lambda>i. seed_recs L Sel pl pst bb freq (P1 (p1 + i))) [0..<e_cnt suf1])"

text \<open>
  The ring of T2 positions.  With \<open>B\<close> the cursor of P2 at the start of the panel, the
  positions of the cache entries below \<^verbatim>\<open>vhgh\<close> have been read, \<open>M\<close> of them;
  \<^verbatim>\<open>pdx\<close> is the slot of the last one, and each of the last \<^verbatim>\<open>POST_BUF_LEN\<close> positions read
  is in its slot.  \<^verbatim>\<open>cdx\<close> is the slot of the first position of the entry \<open>l\<close> the
  code points at.
\<close>

definition loaded :: "(nat \<Rightarrow> nat) \<Rightarrow> nat \<Rightarrow> nat \<Rightarrow> Merge \<Rightarrow> bool" where
  "loaded P2 B M st \<longleftrightarrow>
     p2idx st = B + M \<and> pdx st = (M + POST_BUF_MASK) mod POST_BUF_LEN
     \<and> (\<forall>j. j < M \<and> M \<le> j + POST_BUF_LEN \<longrightarrow> post st (j mod POST_BUF_LEN) = P2 (B + j))"

definition ring :: "Entry list \<Rightarrow> Entry \<Rightarrow> (nat \<Rightarrow> nat) \<Rightarrow> nat \<Rightarrow> nat \<Rightarrow> Merge \<Rightarrow> bool" where
  "ring c ctop P2 B l st \<longleftrightarrow>
     l \<le> vhgh st \<and> vhgh st \<le> length c \<and> cdx st = cnt_sum c ctop 0 l mod POST_BUF_LEN
     \<and> loaded P2 B (cnt_sum c ctop 0 (vhgh st)) st"

text \<open>
  What keeps the positions of a range in the ring: either nothing has been read beyond the
  next entry \<open>r0\<close>, or what has been read beyond it was read while the counts from some
  \<open>w\<close> on stayed below the cutoff, \<open>w\<close> is not behind the pointers \<^verbatim>\<open>vlcp[k0..plen]\<close>, and the
  entries read ahead have an lcp byte of at least \<open>k0\<close>.
\<close>

definition zinv ::
    "Entry list \<Rightarrow> Entry \<Rightarrow> nat \<Rightarrow> nat \<Rightarrow> nat \<Rightarrow> (nat \<Rightarrow> nat) \<Rightarrow> nat \<Rightarrow> bool" where
  "zinv c ctop F pl r0 vl vh \<longleftrightarrow>
     vh \<le> r0 \<or>
     (\<exists>k0 w. k0 \<le> pl \<and> (\<forall>k\<in>{k0..pl}. w \<le> vl k) \<and> cnt_sum c ctop w vh < F
        \<and> (\<forall>i. r0 \<le> i \<and> i < vh \<longrightarrow> k0 \<le> e_lcp (c ! i)))"

definition znext :: "Merge \<Rightarrow> nat" where
  "znext st = (if eorun st then rend st else rend st + 1)"

definition merge_z :: "Entry list \<Rightarrow> Entry \<Rightarrow> nat \<Rightarrow> Merge \<Rightarrow> bool" where
  "merge_z c ctop F st = zinv c ctop F (plen st) (znext st) (vlcp st) (vhgh st)"

text \<open>
  What one turn of the loop does to the state, in terms of the range of the entry: the
  records written pair the positions of the T1 entry with the positions of P2 that belong
  to the cache entries of the range, which start \<open>cnt_sum c ctop 0 (vlcp[plen])\<close> behind \<open>B\<close>.
\<close>

definition entry_post ::
    "nat \<Rightarrow> Layout \<Rightarrow> (nat \<Rightarrow> nat) \<Rightarrow> Entry list \<Rightarrow> Entry \<Rightarrow> (nat \<Rightarrow> nat) \<Rightarrow> (nat \<Rightarrow> nat)
     \<Rightarrow> nat \<Rightarrow> Entry \<Rightarrow> Merge \<Rightarrow> Merge \<Rightarrow> bool" where
  "entry_post F L Sel c ctop P1 P2 B suf1 st st' \<longleftrightarrow>
     merge_inv c ctop F st' \<and> ring c ctop P2 B (rend st') st' \<and> merge_z c ctop F st'
     \<and> p1idx st' = p1idx st + e_cnt suf1
     \<and> emitted st' = emitted st @
           (if range_total c ctop st' < F
            then seeds_of L Sel P1 suf1 (plen st') (p1idx st) (range_total c ctop st')
                   (\<lambda>j. P2 (B + j)) (cnt_sum c ctop 0 (vlcp st' (plen st')))
            else [])
     \<and> nhits st' = nhits st + (if range_total c ctop st' < F
                                 then e_cnt suf1 * range_total c ctop st' else 0)"

text \<open>
  A panel used as concrete input below: \<open>KMER = 14\<close>, one 14-mer in T2 at one position, and
  T1 entries with the same 14-mer (the byte 16 holds the bases 12 and 13).
\<close>

definition uniq_c :: "Entry list" where
  "uniq_c = [\<lparr>e_suf = [16], e_cnt = 1, e_lcp = 5\<rparr>]"

definition uniq_t :: Entry where
  "uniq_t = \<lparr>e_suf = [16], e_cnt = 1, e_lcp = 0\<rparr>"

definition next_t :: Entry where
  "next_t = \<lparr>e_suf = [32], e_cnt = 2, e_lcp = 13\<rparr>"

definition stale_e :: Entry where
  "stale_e = \<lparr>e_suf = [0], e_cnt = 0, e_lcp = 0\<rparr>"

definition demo_P1 :: "nat \<Rightarrow> nat" where
  "demo_P1 i = 500 + i"

definition demo_P2 :: "nat \<Rightarrow> nat" where
  "demo_P2 i = 1000 + i"

definition demo_Sel :: "nat \<Rightarrow> nat" where
  "demo_Sel a = 0"

definition merge_st0 :: Merge where
  "merge_st0 = \<lparr>plen = 0, rend = 0, eorun = False, vlcp = (\<lambda>k. 0), vlow = - 1, vhgh = 0,
                 pdx = 0, cdx = 0, post = (\<lambda>i. 0), p1idx = 0, p2idx = 0, emitted = [],
                 nhits = 0, g1len = 0, tseed = 0\<rparr>"

section \<open>The comparisons of the second redundancy pass\<close>

text \<open>
  The tests that the inner loop of the second pass makes on \<open>o\<close> and \<open>w\<close>, with \<open>o\<close> before
  \<open>w\<close> in \<^verbatim>\<open>perm\<close>.  \<open>overlapping o w\<close>: the loop neither ends at line 3122 nor skips \<open>w\<close> at
  line 3126.  \<open>drops_w o w\<close>: \<^verbatim>\<open>where\<close> is \<open>-1\<close> and the test of line 3138 holds, so \<open>w\<close> is
  marked.  \<open>drops_o o w\<close>: \<^verbatim>\<open>where\<close> is \<open>-1\<close> and the test of line 3142 holds, so \<open>o\<close> is
  marked.
\<close>

definition overlapping :: "Overlap \<Rightarrow> Overlap \<Rightarrow> bool" where
  "overlapping x w \<longleftrightarrow>
     abpos (path w) < aepos (path x) \<and> bbpos (path w) < bepos (path x)
     \<and> bbpos (path x) < bepos (path w)"

definition drops_w :: "Overlap \<Rightarrow> Overlap \<Rightarrow> bool" where
  "drops_w x w =
     (case entwine (path x) (trace x) (path w) (trace w) of None \<Rightarrow> False
      | Some (dist, wh) \<Rightarrow> wh = - 1 \<and> dist < 0 \<and> bepos (path w) \<le> bepos (path x) + 10)"

definition drops_o :: "Overlap \<Rightarrow> Overlap \<Rightarrow> bool" where
  "drops_o x w =
     (case entwine (path x) (trace x) (path w) (trace w) of None \<Rightarrow> False
      | Some (dist, wh) \<Rightarrow> wh = - 1 \<and> dist > 0 \<and> abpos (path w) \<le> abpos (path x) + 10
                             \<and> bepos (path w) + 10 \<ge> bepos (path x))"

text \<open>
  \<open>only_marks os os'\<close>: the block \<open>os'\<close> is \<open>os\<close> with the flag \<^verbatim>\<open>ELIMINATED\<close> set in some
  records.  \<open>ascending\<close>: the order \<^verbatim>\<open>qsort_r\<close> leaves in \<^verbatim>\<open>perm\<close>.  \<open>defined_pairs\<close>: on
  every pair that the pass can hand to \<open>entwine\<close>, the reads of \<open>entwine\<close> stay inside the
  two traces and it divides by no zero.
\<close>

definition only_marks :: "Overlap list \<Rightarrow> Overlap list \<Rightarrow> bool" where
  "only_marks os os' \<longleftrightarrow>
     length os' = length os
     \<and> (\<forall>i<length os. os' ! i = os ! i \<or> os' ! i = eliminate (os ! i))"

definition ascending :: "Overlap list \<Rightarrow> bool" where
  "ascending os \<longleftrightarrow> (\<forall>i k. i \<le> k \<and> k < length os \<longrightarrow> abpos (path (os ! i)) \<le> abpos (path (os ! k)))"

definition defined_pairs :: "Overlap list \<Rightarrow> bool" where
  "defined_pairs os \<longleftrightarrow>
     (\<forall>j k. j < k \<and> k < length os \<and> overlapping (os ! j) (os ! k) \<longrightarrow>
        entwine (path (os ! j)) (trace (os ! j)) (path (os ! k)) (trace (os ! k)) \<noteq> None)"

text \<open>
  What the loop over \<open>k\<close> for a fixed \<open>j\<close> has done when it is entered at \<open>k\<close> with the block
  \<open>os\<close> and left with \<open>os'\<close>: records below \<open>k\<close> other than \<open>j\<close> are untouched; if \<open>j\<close> is
  not marked at the end, every \<open>k'\<close> from \<open>k\<close> on that is reached before line 3122 ends the
  loop, is not marked at the end and overlaps \<open>j\<close> meets neither test; and a record is
  marked only for a test that held.  \<open>outer_post\<close> is the same for the loop over \<open>j\<close> when
  the turns \<open>j = n - 1, \<dots>, 0\<close> have been made.
\<close>

definition inner_post :: "Overlap list \<Rightarrow> nat \<Rightarrow> nat \<Rightarrow> Overlap list \<Rightarrow> bool" where
  "inner_post os j k os' \<longleftrightarrow>
     only_marks os os'
     \<and> (\<forall>i<length os. i \<noteq> j \<and> i < k \<longrightarrow> is_eliminated (os' ! i) = is_eliminated (os ! i))
     \<and> (\<not> is_eliminated (os' ! j) \<longrightarrow>
          (\<forall>k'. k \<le> k' \<and> k' < length os
                \<and> (\<forall>m. k \<le> m \<and> m \<le> k' \<longrightarrow> abpos (path (os ! m)) < aepos (path (os ! j)))
                \<and> \<not> is_eliminated (os' ! k') \<and> overlapping (os ! j) (os ! k')
             \<longrightarrow> \<not> drops_w (os ! j) (os ! k') \<and> \<not> drops_o (os ! j) (os ! k')))
     \<and> (\<forall>i<length os. is_eliminated (os' ! i) \<and> \<not> is_eliminated (os ! i) \<longrightarrow>
          (i = j \<and> (\<exists>k'. k \<le> k' \<and> k' < length os \<and> \<not> is_eliminated (os ! k')
                       \<and> overlapping (os ! j) (os ! k') \<and> drops_o (os ! j) (os ! k')))
          \<or> (k \<le> i \<and> overlapping (os ! j) (os ! i) \<and> drops_w (os ! j) (os ! i)))"

definition outer_post :: "Overlap list \<Rightarrow> nat \<Rightarrow> Overlap list \<Rightarrow> bool" where
  "outer_post os n os' \<longleftrightarrow>
     only_marks os os'
     \<and> (\<forall>j k. j < n \<and> j < k \<and> k < length os
              \<and> \<not> is_eliminated (os' ! j) \<and> \<not> is_eliminated (os' ! k)
              \<and> overlapping (os ! j) (os ! k)
          \<longrightarrow> \<not> drops_w (os ! j) (os ! k) \<and> \<not> drops_o (os ! j) (os ! k))
     \<and> (\<forall>i<length os. is_eliminated (os' ! i) \<and> \<not> is_eliminated (os ! i) \<longrightarrow>
          (\<exists>j<i. \<not> is_eliminated (os ! j) \<and> overlapping (os ! j) (os ! i)
                  \<and> drops_w (os ! j) (os ! i))
          \<or> (\<exists>k. i < k \<and> k < length os \<and> \<not> is_eliminated (os ! k)
                  \<and> overlapping (os ! i) (os ! k) \<and> drops_o (os ! i) (os ! k)))"

text \<open>
  Two more alignments used as concrete inputs below, both behind \<open>short_o\<close> in \<open>abpos\<close>
  order.
\<close>

definition twin_o :: Overlap where
  "twin_o = mk_ovl 2 1 200 200 0 [0, 99, 0, 100]"

definition above_w :: Overlap where
  "above_w = mk_ovl 5 20 300 320 0 [0, 100, 0, 100, 0, 100]"

section \<open>A range of T2 that is longer than the ring\<close>

text \<open>
  A panel used as concrete input below, for \<^verbatim>\<open>KMER = 16\<close> and \<^verbatim>\<open>FREQ = 5000\<close>.  The cache
  holds the 17 consecutive 16-mers of T2 with the suffix bytes 64, \<dots>, 80 (the byte holds
  the bases 12 to 15), each with the count byte 255, so 4335 positions in all; the lcp
  bytes are those of consecutive k-mers (15, and 14 or 13 where the last one or two bases
  wrap), the first entry of the panel has an lcp below 12.  The T1 entry \<open>low_t\<close> has the
  suffix byte 0: it differs from every T2 entry in base 12, so that it shares with all of
  them the 12 bases of the panel and no more.  \<open>base_at p e\<close> is \<^verbatim>\<open>e[h] & m\<close> with
  \<^verbatim>\<open>h = cbyte[p]\<close> and \<^verbatim>\<open>m = mbyte[p]\<close>, the bits of base \<open>p\<close> of an entry (lines 1981-1984).
\<close>

definition ring_e :: "nat \<Rightarrow> Entry" where
  "ring_e i = \<lparr>e_suf = [64 + i], e_cnt = 255,
              e_lcp = (if i = 0 then 5 else if i = 16 then 13 else if i mod 4 = 0 then 14 else 15)\<rparr>"

definition ring_c :: "Entry list" where
  "ring_c = map ring_e [0..<17]"

definition low_t :: Entry where
  "low_t = \<lparr>e_suf = [0], e_cnt = 1, e_lcp = 0\<rparr>"

definition ring_run :: "Merge option" where
  "ring_run = merge_panel 5000 16 demo_L demo_Sel ring_c stale_e demo_P1 demo_P2 [low_t] merge_st0"

definition base_at :: "nat \<Rightarrow> Entry \<Rightarrow> nat" where
  "base_at p e = (e_suf e ! (cbyte ! p)) AND (mbyte ! p)"

section \<open>Properties of the first redundancy pass\<close>

lemma is_eliminated_eliminate [simp]: "is_eliminated (eliminate w)"
  by (simp add: is_eliminated_def eliminate_def ELIMINATED_def
      word_bw_assocs word_ao_absorbs)

lemma is_eliminated_mk_ovl [simp]: "\<not> is_eliminated (mk_ovl ab bb ae be d tr)"
  by (simp add: is_eliminated_def mk_ovl_def)

lemma path_eliminate [simp]: "path (eliminate w) = path w"
  by (simp add: eliminate_def)

text \<open>
  Claim C2.  Two alignments with the same start point and the same end point, the first
  with 5 differences and the second with 3: the pass compares \<open>diffs\<close> of the first with
  \<open>aepos\<close> of the second (line 3074), so it eliminates the second one, which has fewer
  differences, and the one with more differences survives.
\<close>

theorem pass1_same_ends_keeps_more_diffs:
  "map is_eliminated
     (pass1 [mk_ovl 0 0 200 200 5 [], mk_ovl 0 0 200 200 3 []]) = [False, True]"
proof -
  have p: "path (mk_ovl ab bb ae be d tr) =
      \<lparr>abpos = ab, bbpos = bb, aepos = ae, bepos = be, diffs = d\<rparr>"
    for ab bb ae be d tr
    by (simp add: mk_ovl_def)
  show ?thesis
    by (simp add: pass1_def pass1_inner.simps Let_def p)
qed

section \<open>Properties of the second redundancy pass\<close>

lemmas entwine_eval =
  entwine_def TSPACE_def entw_skip.simps entw_loop.simps rd_def cdiv_def
  signed_divide_int_def minupd_def Let_def

lemma entwine_wide_inner:
  "entwine (path wide_o) (trace wide_o) (path inner_w) (trace inner_w) = Some (50, - 1)"
  by (simp add: wide_o_def inner_w_def mk_ovl_def entwine_eval)

lemma entwine_short_long:
  "entwine (path short_o) (trace short_o) (path long_w) (trace long_w) = Some (- 10, - 1)"
  by (simp add: short_o_def long_w_def mk_ovl_def entwine_eval)

lemma examples_live:
  "\<not> is_eliminated wide_o" "\<not> is_eliminated inner_w"
  "\<not> is_eliminated short_o" "\<not> is_eliminated long_w"
  by (simp_all add: wide_o_def inner_w_def short_o_def long_w_def)

lemma examples_path:
  "path wide_o = \<lparr>abpos = 0, bbpos = 0, aepos = 300, bepos = 300, diffs = 0\<rparr>"
  "path inner_w = \<lparr>abpos = 100, bbpos = 150, aepos = 200, bepos = 250, diffs = 0\<rparr>"
  "path short_o = \<lparr>abpos = 0, bbpos = 0, aepos = 200, bepos = 200, diffs = 0\<rparr>"
  "path long_w = \<lparr>abpos = 100, bbpos = 90, aepos = 400, bepos = 205, diffs = 0\<rparr>"
  by (simp_all add: wide_o_def inner_w_def short_o_def long_w_def mk_ovl_def)

lemma pass2_two: "pass2 [x, w] = pass2_outer [x, w] (Suc (Suc 0))"
  by (simp add: pass2_def)

lemma pass2_inner_last: "pass2_inner [x, w] (Suc 0) (Suc (Suc 0)) = Some [x, w]"
  by (simp add: pass2_inner.simps)

lemma pass2_inner_end: "length os = 2 \<Longrightarrow> pass2_inner os 0 (Suc (Suc 0)) = Some os"
  by (simp add: pass2_inner.simps)

lemmas pass2_pair_eval =
  pass2_two pass2_inner_last pass2_inner_end pass2_inner.simps [of _ 0 "Suc 0"] Let_def

text \<open>
  The second pass on two alignments alone, \<open>x\<close> before \<open>w\<close> in \<open>abpos\<close> order, neither
  eliminated, whose a-extents overlap and whose b-extents overlap, and for which \<open>entwine\<close>
  returns the signed minimum \<open>dist\<close> and the position \<open>wh\<close>: if \<open>wh \<noteq> -1\<close> both are kept;
  otherwise \<open>w\<close> is eliminated when \<open>dist < 0\<close> and the b-end of \<open>w\<close> is at most 10 beyond
  that of \<open>x\<close>; otherwise \<open>x\<close> is eliminated when \<open>dist > 0\<close>, \<open>w\<close> starts at most 10 after
  \<open>x\<close> in a and the b-end of \<open>x\<close> is at most 10 beyond that of \<open>w\<close>; in every other case
  both are kept.
\<close>

lemma pass2_pair:
  assumes "\<not> is_eliminated x" and "\<not> is_eliminated w"
    and "abpos (path w) < aepos (path x)"
    and "bbpos (path w) < bepos (path x)" and "bbpos (path x) < bepos (path w)"
    and "entwine (path x) (trace x) (path w) (trace w) = Some (dist, wh)"
  shows "map_option (map is_eliminated) (pass2 [x, w]) =
     Some (if wh \<noteq> - 1 then [False, False]
           else if dist < 0 \<and> bepos (path w) \<le> bepos (path x) + 10 then [False, True]
           else if dist > 0 \<and> abpos (path w) \<le> abpos (path x) + 10
                   \<and> bepos (path w) + 10 \<ge> bepos (path x) then [True, False]
           else [False, False])"
  using assms by (simp add: pass2_pair_eval)

lemma pass2_pair_short_long:
  "\<not> is_eliminated short_o \<and> \<not> is_eliminated long_w
   \<and> abpos (path long_w) < aepos (path short_o)
   \<and> bbpos (path long_w) < bepos (path short_o)
   \<and> bbpos (path short_o) < bepos (path long_w)
   \<and> entwine (path short_o) (trace short_o) (path long_w) (trace long_w) = Some (- 10, - 1)
   \<and> map_option (map is_eliminated) (pass2 [short_o, long_w]) = Some [False, True]"
proof -
  have h: "\<not> is_eliminated short_o" "\<not> is_eliminated long_w"
    "abpos (path long_w) < aepos (path short_o)"
    "bbpos (path long_w) < bepos (path short_o)"
    "bbpos (path short_o) < bepos (path long_w)"
    by (simp_all add: examples_live examples_path)
  have c: "bepos (path long_w) \<le> bepos (path short_o) + 10"
    by (simp add: examples_path)
  show ?thesis
    using pass2_pair [OF h entwine_short_long] h c entwine_short_long by simp
qed

text \<open>The loops of the second pass on a block of any length.\<close>

lemma trace_eliminate [simp]: "trace (eliminate w) = trace w"
  by (simp add: eliminate_def)

lemma eliminate_eliminate [simp]: "eliminate (eliminate w) = eliminate w"
  by (simp add: eliminate_def word_bw_assocs)

lemma only_marks_refl [simp]: "only_marks os os"
  by (simp add: only_marks_def)

lemma only_marks_data:
  assumes "only_marks os os'" and "i < length os"
  shows "path (os' ! i) = path (os ! i)" "trace (os' ! i) = trace (os ! i)"
    "is_eliminated (os ! i) \<longrightarrow> is_eliminated (os' ! i)"
proof -
  have "os' ! i = os ! i \<or> os' ! i = eliminate (os ! i)"
    using assms by (simp add: only_marks_def)
  then show "path (os' ! i) = path (os ! i)" "trace (os' ! i) = trace (os ! i)"
    "is_eliminated (os ! i) \<longrightarrow> is_eliminated (os' ! i)"
    by auto
qed

lemma only_marks_trans:
  assumes ab: "only_marks a b" and bc: "only_marks b c"
  shows "only_marks a c"
  unfolding only_marks_def
proof (intro conjI allI impI)
  show "length c = length a"
    using ab bc by (simp add: only_marks_def)
next
  fix i
  assume i: "i < length a"
  have "b ! i = a ! i \<or> b ! i = eliminate (a ! i)"
    using ab i by (simp add: only_marks_def)
  moreover have "c ! i = b ! i \<or> c ! i = eliminate (b ! i)"
    using ab bc i by (simp add: only_marks_def)
  ultimately show "c ! i = a ! i \<or> c ! i = eliminate (a ! i)"
    by auto
qed

lemma only_marks_upd: "only_marks os (os[k := eliminate (os ! k)])"
  by (cases "k < length os") (auto simp: only_marks_def nth_list_update)

lemma overlapping_same:
  "path a' = path a \<Longrightarrow> path b' = path b \<Longrightarrow> overlapping a' b' = overlapping a b"
  by (simp add: overlapping_def)

lemma drops_w_same:
  "path a' = path a \<Longrightarrow> trace a' = trace a \<Longrightarrow> path b' = path b \<Longrightarrow> trace b' = trace b
     \<Longrightarrow> drops_w a' b' = drops_w a b"
  by (simp add: drops_w_def split: option.splits)

lemma drops_o_same:
  "path a' = path a \<Longrightarrow> trace a' = trace a \<Longrightarrow> path b' = path b \<Longrightarrow> trace b' = trace b
     \<Longrightarrow> drops_o a' b' = drops_o a b"
  by (simp add: drops_o_def split: option.splits)

lemma marks_pair:
  assumes m: "only_marks os os1" and a: "a < length os" and b: "b < length os"
  shows "overlapping (os1 ! a) (os1 ! b) = overlapping (os ! a) (os ! b)"
    "drops_w (os1 ! a) (os1 ! b) = drops_w (os ! a) (os ! b)"
    "drops_o (os1 ! a) (os1 ! b) = drops_o (os ! a) (os ! b)"
    "entwine (path (os1 ! a)) (trace (os1 ! a)) (path (os1 ! b)) (trace (os1 ! b))
       = entwine (path (os ! a)) (trace (os ! a)) (path (os ! b)) (trace (os ! b))"
proof -
  have e: "path (os1 ! a) = path (os ! a)" "trace (os1 ! a) = trace (os ! a)"
    "path (os1 ! b) = path (os ! b)" "trace (os1 ! b) = trace (os ! b)"
    using only_marks_data [OF m a] only_marks_data [OF m b] by simp_all
  show "overlapping (os1 ! a) (os1 ! b) = overlapping (os ! a) (os ! b)"
    by (rule overlapping_same [OF e(1) e(3)])
  show "drops_w (os1 ! a) (os1 ! b) = drops_w (os ! a) (os ! b)"
    by (rule drops_w_same [OF e])
  show "drops_o (os1 ! a) (os1 ! b) = drops_o (os ! a) (os ! b)"
    by (rule drops_o_same [OF e])
  show "entwine (path (os1 ! a)) (trace (os1 ! a)) (path (os1 ! b)) (trace (os1 ! b))
       = entwine (path (os ! a)) (trace (os ! a)) (path (os ! b)) (trace (os ! b))"
    by (simp add: e)
qed

lemma inner_post_stop: "inner_post os j k os" if "k < length os \<longrightarrow> aepos (path (os ! j)) \<le> abpos (path (os ! k))"
  unfolding inner_post_def
proof (intro conjI allI impI)
  fix k'
  assume a: "k \<le> k' \<and> k' < length os
                \<and> (\<forall>m. k \<le> m \<and> m \<le> k' \<longrightarrow> abpos (path (os ! m)) < aepos (path (os ! j)))
                \<and> \<not> is_eliminated (os ! k') \<and> overlapping (os ! j) (os ! k')"
  then have "k < length os" "abpos (path (os ! k)) < aepos (path (os ! j))"
    by auto
  then have False
    using that by simp
  then show "\<not> drops_w (os ! j) (os ! k')" "\<not> drops_o (os ! j) (os ! k')"
    by simp_all
qed simp_all

lemma inner_post_skip:
  assumes ih: "inner_post os j (k + 1) os'" and k: "k < length os"
    and c: "is_eliminated (os ! k) \<or> \<not> overlapping (os ! j) (os ! k)
            \<or> (\<not> drops_w (os ! j) (os ! k) \<and> \<not> drops_o (os ! j) (os ! k))"
  shows "inner_post os j k os'"
proof -
  have m: "only_marks os os'"
    and fl: "\<forall>i<length os. i \<noteq> j \<and> i < k + 1 \<longrightarrow> is_eliminated (os' ! i) = is_eliminated (os ! i)"
    and A: "\<not> is_eliminated (os' ! j) \<longrightarrow>
          (\<forall>k'. k + 1 \<le> k' \<and> k' < length os
                \<and> (\<forall>m. k + 1 \<le> m \<and> m \<le> k' \<longrightarrow> abpos (path (os ! m)) < aepos (path (os ! j)))
                \<and> \<not> is_eliminated (os' ! k') \<and> overlapping (os ! j) (os ! k')
             \<longrightarrow> \<not> drops_w (os ! j) (os ! k') \<and> \<not> drops_o (os ! j) (os ! k'))"
    and B: "\<forall>i<length os. is_eliminated (os' ! i) \<and> \<not> is_eliminated (os ! i) \<longrightarrow>
          (i = j \<and> (\<exists>k'. k + 1 \<le> k' \<and> k' < length os \<and> \<not> is_eliminated (os ! k')
                       \<and> overlapping (os ! j) (os ! k') \<and> drops_o (os ! j) (os ! k')))
          \<or> (k + 1 \<le> i \<and> overlapping (os ! j) (os ! i) \<and> drops_w (os ! j) (os ! i))"
    using ih unfolding inner_post_def by blast+
  have ek: "is_eliminated (os ! k) \<longrightarrow> is_eliminated (os' ! k)"
    using only_marks_data(3) [OF m k] by simp
  have A': "\<not> is_eliminated (os' ! j) \<longrightarrow>
          (\<forall>k'. k \<le> k' \<and> k' < length os
                \<and> (\<forall>m. k \<le> m \<and> m \<le> k' \<longrightarrow> abpos (path (os ! m)) < aepos (path (os ! j)))
                \<and> \<not> is_eliminated (os' ! k') \<and> overlapping (os ! j) (os ! k')
             \<longrightarrow> \<not> drops_w (os ! j) (os ! k') \<and> \<not> drops_o (os ! j) (os ! k'))"
  proof (intro impI allI)
    fix k'
    assume lj: "\<not> is_eliminated (os' ! j)"
      and a: "k \<le> k' \<and> k' < length os
                \<and> (\<forall>m. k \<le> m \<and> m \<le> k' \<longrightarrow> abpos (path (os ! m)) < aepos (path (os ! j)))
                \<and> \<not> is_eliminated (os' ! k') \<and> overlapping (os ! j) (os ! k')"
    show "\<not> drops_w (os ! j) (os ! k') \<and> \<not> drops_o (os ! j) (os ! k')"
    proof (cases "k' = k")
      case True
      then show ?thesis
        using a c ek by auto
    next
      case False
      then have "k + 1 \<le> k' \<and> k' < length os
                \<and> (\<forall>m. k + 1 \<le> m \<and> m \<le> k' \<longrightarrow> abpos (path (os ! m)) < aepos (path (os ! j)))
                \<and> \<not> is_eliminated (os' ! k') \<and> overlapping (os ! j) (os ! k')"
        using a by auto
      then show ?thesis
        using A lj by blast
    qed
  qed
  have B': "\<forall>i<length os. is_eliminated (os' ! i) \<and> \<not> is_eliminated (os ! i) \<longrightarrow>
          (i = j \<and> (\<exists>k'. k \<le> k' \<and> k' < length os \<and> \<not> is_eliminated (os ! k')
                       \<and> overlapping (os ! j) (os ! k') \<and> drops_o (os ! j) (os ! k')))
          \<or> (k \<le> i \<and> overlapping (os ! j) (os ! i) \<and> drops_w (os ! j) (os ! i))"
  proof (intro allI impI)
    fix i
    assume i: "i < length os" and e: "is_eliminated (os' ! i) \<and> \<not> is_eliminated (os ! i)"
    from B i e consider
      (o) k' where "i = j" "k + 1 \<le> k'" "k' < length os" "\<not> is_eliminated (os ! k')"
        "overlapping (os ! j) (os ! k')" "drops_o (os ! j) (os ! k')"
      | (w) "k + 1 \<le> i" "overlapping (os ! j) (os ! i)" "drops_w (os ! j) (os ! i)"
      by blast
    then show "(i = j \<and> (\<exists>k'. k \<le> k' \<and> k' < length os \<and> \<not> is_eliminated (os ! k')
                       \<and> overlapping (os ! j) (os ! k') \<and> drops_o (os ! j) (os ! k')))
          \<or> (k \<le> i \<and> overlapping (os ! j) (os ! i) \<and> drops_w (os ! j) (os ! i))"
    proof cases
      case o
      have "k \<le> k'"
        using o(2) by simp
      then show ?thesis
        using o by blast
    next
      case w
      then show ?thesis
        by simp
    qed
  qed
  have fl': "\<forall>i<length os. i \<noteq> j \<and> i < k \<longrightarrow> is_eliminated (os' ! i) = is_eliminated (os ! i)"
    using fl by simp
  show ?thesis
    unfolding inner_post_def using m fl' A' B' by blast
qed

lemma inner_post_dropo:
  assumes jk: "j < k" "k < length os"
    and c: "\<not> is_eliminated (os ! k)" "overlapping (os ! j) (os ! k)" "drops_o (os ! j) (os ! k)"
  shows "inner_post os j k (os[j := eliminate (os ! j)])"
proof -
  have j: "j < length os"
    using jk by simp
  have m: "only_marks os (os[j := eliminate (os ! j)])"
    by (rule only_marks_upd)
  have e: "is_eliminated (os[j := eliminate (os ! j)] ! j)"
    using j by simp
  have B: "\<forall>i<length os. is_eliminated (os[j := eliminate (os ! j)] ! i) \<and> \<not> is_eliminated (os ! i) \<longrightarrow>
          (i = j \<and> (\<exists>k'. k \<le> k' \<and> k' < length os \<and> \<not> is_eliminated (os ! k')
                       \<and> overlapping (os ! j) (os ! k') \<and> drops_o (os ! j) (os ! k')))
          \<or> (k \<le> i \<and> overlapping (os ! j) (os ! i) \<and> drops_w (os ! j) (os ! i))"
  proof (intro allI impI)
    fix i
    assume i: "i < length os"
      and n: "is_eliminated (os[j := eliminate (os ! j)] ! i) \<and> \<not> is_eliminated (os ! i)"
    have "i = j"
      using n by (cases "i = j") simp_all
    moreover have "\<exists>k'. k \<le> k' \<and> k' < length os \<and> \<not> is_eliminated (os ! k')
                       \<and> overlapping (os ! j) (os ! k') \<and> drops_o (os ! j) (os ! k')"
      using jk c by blast
    ultimately show "(i = j \<and> (\<exists>k'. k \<le> k' \<and> k' < length os \<and> \<not> is_eliminated (os ! k')
                       \<and> overlapping (os ! j) (os ! k') \<and> drops_o (os ! j) (os ! k')))
          \<or> (k \<le> i \<and> overlapping (os ! j) (os ! i) \<and> drops_w (os ! j) (os ! i))"
      by blast
  qed
  show ?thesis
    unfolding inner_post_def using m e B by simp
qed

lemma inner_post_dropw:
  assumes ih: "inner_post (os[k := eliminate (os ! k)]) j (k + 1) os'"
    and jk: "j < k" "k < length os"
    and c: "overlapping (os ! j) (os ! k)" "drops_w (os ! j) (os ! k)"
  shows "inner_post os j k os'"
proof -
  define os1 where "os1 = os[k := eliminate (os ! k)]"
  have len: "length os1 = length os"
    by (simp add: os1_def)
  have j: "j < length os"
    using jk by simp
  have m1: "only_marks os os1"
    unfolding os1_def by (rule only_marks_upd)
  have same: "\<And>i. i \<noteq> k \<Longrightarrow> os1 ! i = os ! i"
    by (simp add: os1_def)
  have ek: "is_eliminated (os1 ! k)"
    using jk by (simp add: os1_def)
  have m: "only_marks os1 os'"
    and fl: "\<forall>i<length os. i \<noteq> j \<and> i < k + 1 \<longrightarrow> is_eliminated (os' ! i) = is_eliminated (os1 ! i)"
    and A: "\<not> is_eliminated (os' ! j) \<longrightarrow>
          (\<forall>k'. k + 1 \<le> k' \<and> k' < length os
                \<and> (\<forall>m. k + 1 \<le> m \<and> m \<le> k' \<longrightarrow> abpos (path (os1 ! m)) < aepos (path (os1 ! j)))
                \<and> \<not> is_eliminated (os' ! k') \<and> overlapping (os1 ! j) (os1 ! k')
             \<longrightarrow> \<not> drops_w (os1 ! j) (os1 ! k') \<and> \<not> drops_o (os1 ! j) (os1 ! k'))"
    and B: "\<forall>i<length os. is_eliminated (os' ! i) \<and> \<not> is_eliminated (os1 ! i) \<longrightarrow>
          (i = j \<and> (\<exists>k'. k + 1 \<le> k' \<and> k' < length os \<and> \<not> is_eliminated (os1 ! k')
                       \<and> overlapping (os1 ! j) (os1 ! k') \<and> drops_o (os1 ! j) (os1 ! k')))
          \<or> (k + 1 \<le> i \<and> overlapping (os1 ! j) (os1 ! i) \<and> drops_w (os1 ! j) (os1 ! i))"
    using ih unfolding inner_post_def os1_def [symmetric] len by blast+
  have mm: "only_marks os os'"
    using m1 m by (rule only_marks_trans)
  have j1: "os1 ! j = os ! j"
    using jk by (simp add: same)
  have fl': "\<forall>i<length os. i \<noteq> j \<and> i < k \<longrightarrow> is_eliminated (os' ! i) = is_eliminated (os ! i)"
    using fl same by simp
  have ek': "is_eliminated (os' ! k)"
    using fl jk ek by simp
  have A': "\<not> is_eliminated (os' ! j) \<longrightarrow>
          (\<forall>k'. k \<le> k' \<and> k' < length os
                \<and> (\<forall>m. k \<le> m \<and> m \<le> k' \<longrightarrow> abpos (path (os ! m)) < aepos (path (os ! j)))
                \<and> \<not> is_eliminated (os' ! k') \<and> overlapping (os ! j) (os ! k')
             \<longrightarrow> \<not> drops_w (os ! j) (os ! k') \<and> \<not> drops_o (os ! j) (os ! k'))"
  proof (intro impI allI)
    fix k'
    assume lj: "\<not> is_eliminated (os' ! j)"
      and a: "k \<le> k' \<and> k' < length os
                \<and> (\<forall>m. k \<le> m \<and> m \<le> k' \<longrightarrow> abpos (path (os ! m)) < aepos (path (os ! j)))
                \<and> \<not> is_eliminated (os' ! k') \<and> overlapping (os ! j) (os ! k')"
    have ne: "k' \<noteq> k"
      using a ek' by auto
    have r: "\<forall>m. k + 1 \<le> m \<and> m \<le> k' \<longrightarrow> os1 ! m = os ! m"
      by (simp add: same)
    have "k + 1 \<le> k' \<and> k' < length os
                \<and> (\<forall>m. k + 1 \<le> m \<and> m \<le> k' \<longrightarrow> abpos (path (os1 ! m)) < aepos (path (os1 ! j)))
                \<and> \<not> is_eliminated (os' ! k') \<and> overlapping (os1 ! j) (os1 ! k')"
      using a ne r j1 same [of k'] by auto
    then have "\<not> drops_w (os1 ! j) (os1 ! k') \<and> \<not> drops_o (os1 ! j) (os1 ! k')"
      using A lj by blast
    then show "\<not> drops_w (os ! j) (os ! k') \<and> \<not> drops_o (os ! j) (os ! k')"
      using ne j1 same [of k'] by simp
  qed
  have B': "\<forall>i<length os. is_eliminated (os' ! i) \<and> \<not> is_eliminated (os ! i) \<longrightarrow>
          (i = j \<and> (\<exists>k'. k \<le> k' \<and> k' < length os \<and> \<not> is_eliminated (os ! k')
                       \<and> overlapping (os ! j) (os ! k') \<and> drops_o (os ! j) (os ! k')))
          \<or> (k \<le> i \<and> overlapping (os ! j) (os ! i) \<and> drops_w (os ! j) (os ! i))"
  proof (intro allI impI)
    fix i
    assume i: "i < length os" and e: "is_eliminated (os' ! i) \<and> \<not> is_eliminated (os ! i)"
    show "(i = j \<and> (\<exists>k'. k \<le> k' \<and> k' < length os \<and> \<not> is_eliminated (os ! k')
                       \<and> overlapping (os ! j) (os ! k') \<and> drops_o (os ! j) (os ! k')))
          \<or> (k \<le> i \<and> overlapping (os ! j) (os ! i) \<and> drops_w (os ! j) (os ! i))"
    proof (cases "i = k")
      case True
      then show ?thesis
        using c by simp
    next
      case False
      then have "is_eliminated (os' ! i) \<and> \<not> is_eliminated (os1 ! i)"
        using e by (simp add: same)
      with B i consider
        (o) k' where "i = j" "k + 1 \<le> k'" "k' < length os" "\<not> is_eliminated (os1 ! k')"
          "overlapping (os1 ! j) (os1 ! k')" "drops_o (os1 ! j) (os1 ! k')"
        | (w) "k + 1 \<le> i" "overlapping (os1 ! j) (os1 ! i)" "drops_w (os1 ! j) (os1 ! i)"
        by blast
      then show ?thesis
      proof cases
        case o
        have ne: "k' \<noteq> k"
          using o(2) by simp
        have "k \<le> k' \<and> k' < length os \<and> \<not> is_eliminated (os ! k')
                \<and> overlapping (os ! j) (os ! k') \<and> drops_o (os ! j) (os ! k')"
          using o ne j1 same [of k'] by simp
        then show ?thesis
          using o(1) by blast
      next
        case w
        then show ?thesis
          using False j1 same [of i] by simp
      qed
    qed
  qed
  show ?thesis
    unfolding inner_post_def using mm fl' A' B' by blast
qed

lemma pass2_inner_spec:
  assumes "j < k" "j < length os"
    and "\<forall>k'. k \<le> k' \<and> k' < length os \<and> overlapping (os ! j) (os ! k') \<longrightarrow>
           entwine (path (os ! j)) (trace (os ! j)) (path (os ! k')) (trace (os ! k')) \<noteq> None"
  shows "\<exists>os'. pass2_inner os j k = Some os' \<and> inner_post os j k os'"
  using assms
proof (induction "length os - k" arbitrary: os k rule: less_induct)
  case less
  note jk = less.prems(1) and j = less.prems(2) and ok = less.prems(3)
  show ?case
  proof (cases "k < length os")
    case False
    have "pass2_inner os j k = Some os"
      using False by (subst pass2_inner.simps) simp
    moreover have "inner_post os j k os"
      using False by (intro inner_post_stop) simp
    ultimately show ?thesis
      by blast
  next
    case k: True
    have step: "\<exists>os'. pass2_inner os j (k + 1) = Some os' \<and> inner_post os j (k + 1) os'"
    proof (rule less.hyps)
      show "length os - (k + 1) < length os - k"
        using k by simp
      show "j < k + 1"
        using jk by simp
      show "j < length os"
        by (rule j)
      show "\<forall>k'. k + 1 \<le> k' \<and> k' < length os \<and> overlapping (os ! j) (os ! k') \<longrightarrow>
           entwine (path (os ! j)) (trace (os ! j)) (path (os ! k')) (trace (os ! k')) \<noteq> None"
        using ok by simp
    qed
    have skip: "\<exists>os'. pass2_inner os j k = Some os' \<and> inner_post os j k os'"
      if e: "pass2_inner os j k = pass2_inner os j (k + 1)"
        and c: "is_eliminated (os ! k) \<or> \<not> overlapping (os ! j) (os ! k)
            \<or> (\<not> drops_w (os ! j) (os ! k) \<and> \<not> drops_o (os ! j) (os ! k))"
    proof -
      from step obtain os' where s: "pass2_inner os j (k + 1) = Some os'"
        "inner_post os j (k + 1) os'"
        by blast
      have "inner_post os j k os'"
        using s(2) k c by (rule inner_post_skip)
      then show ?thesis
        using e s(1) by simp
    qed
    show ?thesis
    proof (cases "aepos (path (os ! j)) \<le> abpos (path (os ! k))")
      case True
      have "pass2_inner os j k = Some os"
        using True k by (subst pass2_inner.simps) simp
      moreover have "inner_post os j k os"
        using True by (intro inner_post_stop) simp
      ultimately show ?thesis
        by blast
    next
      case a: False
      show ?thesis
      proof (cases "is_eliminated (os ! k)")
        case True
        have "pass2_inner os j k = pass2_inner os j (k + 1)"
          using True k a by (subst pass2_inner.simps) simp
        then show ?thesis
          using True by (intro skip) simp_all
      next
        case live: False
        show ?thesis
        proof (cases "bepos (path (os ! j)) \<le> bbpos (path (os ! k))
                       \<or> bbpos (path (os ! j)) \<ge> bepos (path (os ! k))")
          case True
          have "pass2_inner os j k = pass2_inner os j (k + 1)"
            using True k a live by (subst pass2_inner.simps) simp
          moreover have "\<not> overlapping (os ! j) (os ! k)"
            using True by (auto simp: overlapping_def)
          ultimately show ?thesis
            by (intro skip) simp_all
        next
          case b: False
          have ov: "overlapping (os ! j) (os ! k)"
            using a b by (auto simp: overlapping_def)
          then have "entwine (path (os ! j)) (trace (os ! j)) (path (os ! k)) (trace (os ! k)) \<noteq> None"
            using ok k by simp
          then obtain dist wh where
            en: "entwine (path (os ! j)) (trace (os ! j)) (path (os ! k)) (trace (os ! k)) = Some (dist, wh)"
            by auto
          have unf: "pass2_inner os j k =
              (if wh \<noteq> - 1 then pass2_inner os j (k + 1)
                else if dist < 0 \<and> bepos (path (os ! k)) \<le> bepos (path (os ! j)) + 10
                  then pass2_inner (os[k := eliminate (os ! k)]) j (k + 1)
                else if dist > 0 \<and> abpos (path (os ! k)) \<le> abpos (path (os ! j)) + 10
                     \<and> bepos (path (os ! k)) + 10 \<ge> bepos (path (os ! j))
                  then Some (os[j := eliminate (os ! j)])
                else pass2_inner os j (k + 1))"
            using k a live b en by (subst pass2_inner.simps) (simp add: Let_def)
          have dw: "drops_w (os ! j) (os ! k) \<longleftrightarrow>
              wh = - 1 \<and> dist < 0 \<and> bepos (path (os ! k)) \<le> bepos (path (os ! j)) + 10"
            by (simp add: drops_w_def en)
          have dro: "drops_o (os ! j) (os ! k) \<longleftrightarrow>
              wh = - 1 \<and> dist > 0 \<and> abpos (path (os ! k)) \<le> abpos (path (os ! j)) + 10
                     \<and> bepos (path (os ! k)) + 10 \<ge> bepos (path (os ! j))"
            by (simp add: drops_o_def en)
          show ?thesis
          proof (cases "drops_w (os ! j) (os ! k)")
            case True
            define os1 where "os1 = os[k := eliminate (os ! k)]"
            have m1: "only_marks os os1"
              unfolding os1_def by (rule only_marks_upd)
            have len: "length os1 = length os"
              by (simp add: os1_def)
            have "\<exists>os'. pass2_inner os1 j (k + 1) = Some os' \<and> inner_post os1 j (k + 1) os'"
            proof (rule less.hyps)
              show "length os1 - (k + 1) < length os - k"
                using k len by simp
              show "j < k + 1"
                using jk by simp
              show "j < length os1"
                using j len by simp
              show "\<forall>k'. k + 1 \<le> k' \<and> k' < length os1 \<and> overlapping (os1 ! j) (os1 ! k') \<longrightarrow>
                 entwine (path (os1 ! j)) (trace (os1 ! j)) (path (os1 ! k')) (trace (os1 ! k')) \<noteq> None"
              proof (intro allI impI)
                fix k'
                assume h: "k + 1 \<le> k' \<and> k' < length os1 \<and> overlapping (os1 ! j) (os1 ! k')"
                have k': "k' < length os"
                  using h len by simp
                have "overlapping (os ! j) (os ! k')"
                  using h marks_pair(1) [OF m1 j k'] by simp
                then have "entwine (path (os ! j)) (trace (os ! j)) (path (os ! k')) (trace (os ! k')) \<noteq> None"
                  using ok h k' by simp
                then show "entwine (path (os1 ! j)) (trace (os1 ! j)) (path (os1 ! k')) (trace (os1 ! k')) \<noteq> None"
                  using marks_pair(4) [OF m1 j k'] by simp
              qed
            qed
            then obtain os' where s: "pass2_inner os1 j (k + 1) = Some os'"
              "inner_post os1 j (k + 1) os'"
              by blast
            have "inner_post os j k os'"
              using s(2) jk k ov True unfolding os1_def by (rule inner_post_dropw)
            moreover have "pass2_inner os j k = Some os'"
              using unf True dw s(1) by (simp add: os1_def)
            ultimately show ?thesis
              by blast
          next
            case nw: False
            show ?thesis
            proof (cases "drops_o (os ! j) (os ! k)")
              case True
              have "pass2_inner os j k = Some (os[j := eliminate (os ! j)])"
                using unf True nw dw dro by auto
              moreover have "inner_post os j k (os[j := eliminate (os ! j)])"
                using jk k live ov True by (rule inner_post_dropo)
              ultimately show ?thesis
                by blast
            next
              case False
              have "pass2_inner os j k = pass2_inner os j (k + 1)"
                using unf False nw dw dro by auto
              then show ?thesis
                using False nw by (intro skip) simp_all
            qed
          qed
        qed
      qed
    qed
  qed
qed

lemma only_marks_live: "only_marks os os' \<Longrightarrow> i < length os \<Longrightarrow> \<not> is_eliminated (os' ! i)
    \<Longrightarrow> \<not> is_eliminated (os ! i)"
  using only_marks_data(3) [of os os' i] by blast

lemma only_marks_length: "only_marks os os' \<Longrightarrow> length os' = length os"
  by (simp add: only_marks_def)

lemma ascending_marks:
  assumes m: "only_marks os os'" and a: "ascending os"
  shows "ascending os'"
  unfolding ascending_def
proof (intro allI impI)
  fix i k
  assume h: "i \<le> k \<and> k < length os'"
  have k: "k < length os" and i: "i < length os"
    using h m by (simp_all add: only_marks_def)
  show "abpos (path (os' ! i)) \<le> abpos (path (os' ! k))"
    using a h k only_marks_data(1) [OF m i] only_marks_data(1) [OF m k]
    by (simp add: ascending_def)
qed

lemma defined_pairs_marks:
  assumes m: "only_marks os os'" and d: "defined_pairs os"
  shows "defined_pairs os'"
  unfolding defined_pairs_def
proof (intro allI impI)
  fix j k
  assume h: "j < k \<and> k < length os' \<and> overlapping (os' ! j) (os' ! k)"
  have k: "k < length os" and j: "j < length os"
    using h only_marks_length [OF m] by simp_all
  have "overlapping (os ! j) (os ! k)"
    using h marks_pair(1) [OF m j k] by simp
  then have "entwine (path (os ! j)) (trace (os ! j)) (path (os ! k)) (trace (os ! k)) \<noteq> None"
    using d h k by (simp add: defined_pairs_def)
  then show "entwine (path (os' ! j)) (trace (os' ! j)) (path (os' ! k)) (trace (os' ! k)) \<noteq> None"
    using marks_pair(4) [OF m j k] by simp
qed

lemma outer_post_zero: "outer_post os 0 os"
  by (simp add: outer_post_def)

lemma outer_post_skip:
  assumes e: "is_eliminated (os ! n)" and n: "n < length os" and p: "outer_post os n os'"
  shows "outer_post os (Suc n) os'"
proof -
  have m: "only_marks os os'"
    using p by (simp add: outer_post_def)
  have en: "is_eliminated (os' ! n)"
    using only_marks_data(3) [OF m n] e by simp
  have A: "\<forall>j k. j < n \<and> j < k \<and> k < length os
              \<and> \<not> is_eliminated (os' ! j) \<and> \<not> is_eliminated (os' ! k)
              \<and> overlapping (os ! j) (os ! k)
          \<longrightarrow> \<not> drops_w (os ! j) (os ! k) \<and> \<not> drops_o (os ! j) (os ! k)"
    using p unfolding outer_post_def by blast
  have A': "\<forall>j k. j < Suc n \<and> j < k \<and> k < length os
              \<and> \<not> is_eliminated (os' ! j) \<and> \<not> is_eliminated (os' ! k)
              \<and> overlapping (os ! j) (os ! k)
          \<longrightarrow> \<not> drops_w (os ! j) (os ! k) \<and> \<not> drops_o (os ! j) (os ! k)"
  proof (intro allI impI)
    fix j k
    assume h: "j < Suc n \<and> j < k \<and> k < length os
              \<and> \<not> is_eliminated (os' ! j) \<and> \<not> is_eliminated (os' ! k)
              \<and> overlapping (os ! j) (os ! k)"
    then have "j \<noteq> n"
      using en by auto
    then have "j < n"
      using h by simp
    then show "\<not> drops_w (os ! j) (os ! k) \<and> \<not> drops_o (os ! j) (os ! k)"
      using A h by blast
  qed
  show ?thesis
    using p A' unfolding outer_post_def by blast
qed

lemma outer_post_step:
  assumes n: "n < length os" and live: "\<not> is_eliminated (os ! n)"
    and ip: "inner_post os n (n + 1) os1" and op: "outer_post os1 n os'"
    and asc: "ascending os"
  shows "outer_post os (Suc n) os'"
proof -
  have m1: "only_marks os os1"
    using ip by (simp add: inner_post_def)
  have len: "length os1 = length os"
    using m1 by (rule only_marks_length)
  have m2: "only_marks os1 os'"
    using op by (simp add: outer_post_def)
  have mm: "only_marks os os'"
    using m1 m2 by (rule only_marks_trans)
  have iA: "\<not> is_eliminated (os1 ! n) \<longrightarrow>
          (\<forall>k'. n + 1 \<le> k' \<and> k' < length os
                \<and> (\<forall>m. n + 1 \<le> m \<and> m \<le> k' \<longrightarrow> abpos (path (os ! m)) < aepos (path (os ! n)))
                \<and> \<not> is_eliminated (os1 ! k') \<and> overlapping (os ! n) (os ! k')
             \<longrightarrow> \<not> drops_w (os ! n) (os ! k') \<and> \<not> drops_o (os ! n) (os ! k'))"
    and iB: "\<forall>i<length os. is_eliminated (os1 ! i) \<and> \<not> is_eliminated (os ! i) \<longrightarrow>
          (i = n \<and> (\<exists>k'. n + 1 \<le> k' \<and> k' < length os \<and> \<not> is_eliminated (os ! k')
                       \<and> overlapping (os ! n) (os ! k') \<and> drops_o (os ! n) (os ! k')))
          \<or> (n + 1 \<le> i \<and> overlapping (os ! n) (os ! i) \<and> drops_w (os ! n) (os ! i))"
    using ip unfolding inner_post_def by blast+
  have oA: "\<forall>j k. j < n \<and> j < k \<and> k < length os
              \<and> \<not> is_eliminated (os' ! j) \<and> \<not> is_eliminated (os' ! k)
              \<and> overlapping (os1 ! j) (os1 ! k)
          \<longrightarrow> \<not> drops_w (os1 ! j) (os1 ! k) \<and> \<not> drops_o (os1 ! j) (os1 ! k)"
    and oB: "\<forall>i<length os. is_eliminated (os' ! i) \<and> \<not> is_eliminated (os1 ! i) \<longrightarrow>
          (\<exists>j<i. \<not> is_eliminated (os1 ! j) \<and> overlapping (os1 ! j) (os1 ! i)
                  \<and> drops_w (os1 ! j) (os1 ! i))
          \<or> (\<exists>k. i < k \<and> k < length os \<and> \<not> is_eliminated (os1 ! k)
                  \<and> overlapping (os1 ! i) (os1 ! k) \<and> drops_o (os1 ! i) (os1 ! k))"
    using op unfolding outer_post_def len by blast+
  have A: "\<forall>j k. j < Suc n \<and> j < k \<and> k < length os
              \<and> \<not> is_eliminated (os' ! j) \<and> \<not> is_eliminated (os' ! k)
              \<and> overlapping (os ! j) (os ! k)
          \<longrightarrow> \<not> drops_w (os ! j) (os ! k) \<and> \<not> drops_o (os ! j) (os ! k)"
  proof (intro allI impI)
    fix j k
    assume h: "j < Suc n \<and> j < k \<and> k < length os
              \<and> \<not> is_eliminated (os' ! j) \<and> \<not> is_eliminated (os' ! k)
              \<and> overlapping (os ! j) (os ! k)"
    have k: "k < length os" and j: "j < length os"
      using h by simp_all
    show "\<not> drops_w (os ! j) (os ! k) \<and> \<not> drops_o (os ! j) (os ! k)"
    proof (cases "j = n")
      case True
      have l1: "\<not> is_eliminated (os1 ! n)" "\<not> is_eliminated (os1 ! k)"
        using h True only_marks_live [OF m2, of n] only_marks_live [OF m2, of k] k n len
        by auto
      have r: "\<forall>m. n + 1 \<le> m \<and> m \<le> k \<longrightarrow> abpos (path (os ! m)) < aepos (path (os ! n))"
      proof (intro allI impI)
        fix m
        assume m: "n + 1 \<le> m \<and> m \<le> k"
        have "abpos (path (os ! m)) \<le> abpos (path (os ! k))"
          using asc m k by (simp add: ascending_def)
        moreover have "abpos (path (os ! k)) < aepos (path (os ! n))"
          using h True by (simp add: overlapping_def)
        ultimately show "abpos (path (os ! m)) < aepos (path (os ! n))"
          by simp
      qed
      have "n + 1 \<le> k \<and> k < length os
                \<and> (\<forall>m. n + 1 \<le> m \<and> m \<le> k \<longrightarrow> abpos (path (os ! m)) < aepos (path (os ! n)))
                \<and> \<not> is_eliminated (os1 ! k) \<and> overlapping (os ! n) (os ! k)"
        using h True r l1 by simp
      then show ?thesis
        using iA l1(1) True by blast
    next
      case False
      then have jn: "j < n"
        using h by simp
      have "overlapping (os1 ! j) (os1 ! k)"
        using h marks_pair(1) [OF m1 j k] by simp
      then have "\<not> drops_w (os1 ! j) (os1 ! k) \<and> \<not> drops_o (os1 ! j) (os1 ! k)"
        using oA jn h by blast
      then show ?thesis
        using marks_pair(2,3) [OF m1 j k] by simp
    qed
  qed
  have B: "\<forall>i<length os. is_eliminated (os' ! i) \<and> \<not> is_eliminated (os ! i) \<longrightarrow>
          (\<exists>j<i. \<not> is_eliminated (os ! j) \<and> overlapping (os ! j) (os ! i)
                  \<and> drops_w (os ! j) (os ! i))
          \<or> (\<exists>k. i < k \<and> k < length os \<and> \<not> is_eliminated (os ! k)
                  \<and> overlapping (os ! i) (os ! k) \<and> drops_o (os ! i) (os ! k))"
  proof (intro allI impI)
    fix i
    assume i: "i < length os" and e: "is_eliminated (os' ! i) \<and> \<not> is_eliminated (os ! i)"
    show "(\<exists>j<i. \<not> is_eliminated (os ! j) \<and> overlapping (os ! j) (os ! i)
                  \<and> drops_w (os ! j) (os ! i))
          \<or> (\<exists>k. i < k \<and> k < length os \<and> \<not> is_eliminated (os ! k)
                  \<and> overlapping (os ! i) (os ! k) \<and> drops_o (os ! i) (os ! k))"
    proof (cases "is_eliminated (os1 ! i)")
      case True
      with iB i e consider
        (o) k' where "i = n" "n + 1 \<le> k'" "k' < length os" "\<not> is_eliminated (os ! k')"
          "overlapping (os ! n) (os ! k')" "drops_o (os ! n) (os ! k')"
        | (w) "n + 1 \<le> i" "overlapping (os ! n) (os ! i)" "drops_w (os ! n) (os ! i)"
        by blast
      then show ?thesis
      proof cases
        case o
        have "i < k'"
          using o(1,2) by simp
        then have "\<exists>k. i < k \<and> k < length os \<and> \<not> is_eliminated (os ! k)
                  \<and> overlapping (os ! i) (os ! k) \<and> drops_o (os ! i) (os ! k)"
          using o by blast
        then show ?thesis
          by (rule disjI2)
      next
        case w
        have "n < i"
          using w(1) by simp
        then have "\<exists>j<i. \<not> is_eliminated (os ! j) \<and> overlapping (os ! j) (os ! i)
                  \<and> drops_w (os ! j) (os ! i)"
          using w live by blast
        then show ?thesis
          by (rule disjI1)
      qed
    next
      case False
      with oB i e consider
        (w) j where "j < i" "\<not> is_eliminated (os1 ! j)" "overlapping (os1 ! j) (os1 ! i)"
          "drops_w (os1 ! j) (os1 ! i)"
        | (o) k where "i < k" "k < length os" "\<not> is_eliminated (os1 ! k)"
          "overlapping (os1 ! i) (os1 ! k)" "drops_o (os1 ! i) (os1 ! k)"
        by blast
      then show ?thesis
      proof cases
        case w
        have j: "j < length os"
          using w(1) i by simp
        have "\<not> is_eliminated (os ! j)"
          using only_marks_live [OF m1 j] w(2) by simp
        moreover have "overlapping (os ! j) (os ! i)" "drops_w (os ! j) (os ! i)"
          using w(3,4) marks_pair(1,2) [OF m1 j i] by simp_all
        ultimately have "\<exists>j<i. \<not> is_eliminated (os ! j) \<and> overlapping (os ! j) (os ! i)
                  \<and> drops_w (os ! j) (os ! i)"
          using w(1) by blast
        then show ?thesis
          by (rule disjI1)
      next
        case o
        have "\<not> is_eliminated (os ! k)"
          using only_marks_live [OF m1 o(2)] o(3) by simp
        moreover have "overlapping (os ! i) (os ! k)" "drops_o (os ! i) (os ! k)"
          using o(4,5) marks_pair(1,3) [OF m1 i o(2)] by simp_all
        ultimately have "\<exists>k. i < k \<and> k < length os \<and> \<not> is_eliminated (os ! k)
                  \<and> overlapping (os ! i) (os ! k) \<and> drops_o (os ! i) (os ! k)"
          using o(1,2) by blast
        then show ?thesis
          by (rule disjI2)
      qed
    qed
  qed
  show ?thesis
    unfolding outer_post_def using mm A B by blast
qed

lemma pass2_outer_spec:
  assumes "n \<le> length os" and "ascending os" and "defined_pairs os"
  shows "\<exists>os'. pass2_outer os n = Some os' \<and> outer_post os n os'"
  using assms
proof (induction n arbitrary: os)
  case 0
  show ?case
    by (simp add: outer_post_zero)
next
  case (Suc n)
  have n: "n < length os"
    using Suc.prems(1) by simp
  show ?case
  proof (cases "is_eliminated (os ! n)")
    case True
    obtain os' where r: "pass2_outer os n = Some os'" "outer_post os n os'"
      using Suc.IH [of os] Suc.prems n by auto
    have "outer_post os (Suc n) os'"
      using True n r(2) by (rule outer_post_skip)
    then show ?thesis
      using True r(1) by simp
  next
    case False
    have "\<forall>k'. n + 1 \<le> k' \<and> k' < length os \<and> overlapping (os ! n) (os ! k') \<longrightarrow>
           entwine (path (os ! n)) (trace (os ! n)) (path (os ! k')) (trace (os ! k')) \<noteq> None"
      using Suc.prems(3) by (simp add: defined_pairs_def)
    then obtain os1 where i: "pass2_inner os n (n + 1) = Some os1" "inner_post os n (n + 1) os1"
      using pass2_inner_spec [of n "n + 1" os] n by auto
    have m1: "only_marks os os1"
      using i(2) by (simp add: inner_post_def)
    have "n \<le> length os1"
      using n only_marks_length [OF m1] by simp
    moreover have "ascending os1"
      using m1 Suc.prems(2) by (rule ascending_marks)
    moreover have "defined_pairs os1"
      using m1 Suc.prems(3) by (rule defined_pairs_marks)
    ultimately obtain os' where r: "pass2_outer os1 n = Some os'" "outer_post os1 n os'"
      using Suc.IH [of os1] by auto
    have "outer_post os (Suc n) os'"
      using n False i(2) r(2) Suc.prems(2) by (rule outer_post_step)
    then show ?thesis
      using False i(1) r(1) by simp
  qed
qed

lemma ascending_sorted: "sorted (map (abpos \<circ> path) os) \<Longrightarrow> ascending os"
  by (auto simp: ascending_def sorted_iff_nth_mono)

lemma trio_live: "\<not> is_eliminated twin_o" "\<not> is_eliminated above_w"
  by (simp_all add: twin_o_def above_w_def)

lemma trio_path:
  "path twin_o = \<lparr>abpos = 2, bbpos = 1, aepos = 200, bepos = 200, diffs = 0\<rparr>"
  "path above_w = \<lparr>abpos = 5, bbpos = 20, aepos = 300, bepos = 320, diffs = 0\<rparr>"
  by (simp_all add: twin_o_def above_w_def mk_ovl_def)

lemma entwine_trio:
  "entwine (path short_o) (trace short_o) (path twin_o) (trace twin_o) = Some (0, 100)"
  "entwine (path short_o) (trace short_o) (path above_w) (trace above_w) = Some (15, - 1)"
  "entwine (path twin_o) (trace twin_o) (path above_w) (trace above_w) = Some (16, - 1)"
  by (simp_all add: short_o_def twin_o_def above_w_def mk_ovl_def entwine_eval)

lemma trio_drops:
  "\<not> drops_w short_o above_w" "\<not> drops_w twin_o above_w"
  "drops_o short_o above_w" "drops_o twin_o above_w"
  "overlapping short_o above_w" "overlapping twin_o above_w"
  by (simp_all add: drops_w_def drops_o_def overlapping_def entwine_trio)
    (simp_all add: examples_path trio_path)

text \<open>
  Claim C7, as the code has it.  Let the alignments of a contig pair be in \<open>abpos\<close> order,
  as \<^verbatim>\<open>qsort_r\<close> leaves them, and let \<open>entwine\<close> be defined on every pair \<open>o\<close> before \<open>w\<close>
  whose a-extents overlap (\<open>w\<close> starts before \<open>o\<close> ends) and whose b-extents overlap.  For
  such a pair say that \<open>o\<close> drops \<open>w\<close> when \<open>entwine\<close> sets \<^verbatim>\<open>where\<close> to \<open>-1\<close>, returns
  \<open>dist < 0\<close> and the b-end of \<open>w\<close> is at most 10 beyond that of \<open>o\<close>, and that \<open>w\<close> drops \<open>o\<close>
  when \<^verbatim>\<open>where\<close> is \<open>-1\<close>, \<open>dist > 0\<close>, \<open>w\<close> starts at most 10 after \<open>o\<close> in a and the b-end
  of \<open>o\<close> is at most 10 beyond that of \<open>w\<close>.  Then the second pass returns; it changes
  nothing but \<^verbatim>\<open>ELIMINATED\<close> flags, which it only sets; of any two overlapping alignments
  that are both not eliminated after the pass, neither drops the other; and every
  alignment that the pass eliminates is dropped by an overlapping alignment that was not
  eliminated before the pass.
\<close>

theorem pass2_sweep:
  assumes "sorted (map (abpos \<circ> path) os)"
    and "\<forall>j k. j < k \<and> k < length os \<and> overlapping (os ! j) (os ! k) \<longrightarrow>
           entwine (path (os ! j)) (trace (os ! j)) (path (os ! k)) (trace (os ! k)) \<noteq> None"
  shows "\<exists>os'. pass2 os = Some os' \<and> length os' = length os
     \<and> (\<forall>i<length os. os' ! i = os ! i \<or> os' ! i = eliminate (os ! i))
     \<and> (\<forall>j k. j < k \<and> k < length os
              \<and> \<not> is_eliminated (os' ! j) \<and> \<not> is_eliminated (os' ! k)
              \<and> overlapping (os ! j) (os ! k)
          \<longrightarrow> \<not> drops_w (os ! j) (os ! k) \<and> \<not> drops_o (os ! j) (os ! k))
     \<and> (\<forall>i<length os. is_eliminated (os' ! i) \<and> \<not> is_eliminated (os ! i) \<longrightarrow>
          (\<exists>j<i. \<not> is_eliminated (os ! j) \<and> overlapping (os ! j) (os ! i)
                  \<and> drops_w (os ! j) (os ! i))
          \<or> (\<exists>k. i < k \<and> k < length os \<and> \<not> is_eliminated (os ! k)
                  \<and> overlapping (os ! i) (os ! k) \<and> drops_o (os ! i) (os ! k)))"
proof -
  have a: "ascending os"
    using assms(1) by (rule ascending_sorted)
  have d: "defined_pairs os"
    using assms(2) by (simp add: defined_pairs_def)
  obtain os' where r: "pass2_outer os (length os) = Some os'" "outer_post os (length os) os'"
    using pass2_outer_spec [of "length os" os] a d by auto
  have m: "only_marks os os'"
    using r(2) by (simp add: outer_post_def)
  have A: "\<forall>j k. j < k \<and> k < length os
              \<and> \<not> is_eliminated (os' ! j) \<and> \<not> is_eliminated (os' ! k)
              \<and> overlapping (os ! j) (os ! k)
          \<longrightarrow> \<not> drops_w (os ! j) (os ! k) \<and> \<not> drops_o (os ! j) (os ! k)"
  proof (intro allI impI)
    fix j k
    assume h: "j < k \<and> k < length os
              \<and> \<not> is_eliminated (os' ! j) \<and> \<not> is_eliminated (os' ! k)
              \<and> overlapping (os ! j) (os ! k)"
    then have "j < length os \<and> j < k \<and> k < length os
              \<and> \<not> is_eliminated (os' ! j) \<and> \<not> is_eliminated (os' ! k)
              \<and> overlapping (os ! j) (os ! k)"
      by simp
    then show "\<not> drops_w (os ! j) (os ! k) \<and> \<not> drops_o (os ! j) (os ! k)"
      using r(2) unfolding outer_post_def by blast
  qed
  have B: "\<forall>i<length os. is_eliminated (os' ! i) \<and> \<not> is_eliminated (os ! i) \<longrightarrow>
          (\<exists>j<i. \<not> is_eliminated (os ! j) \<and> overlapping (os ! j) (os ! i)
                  \<and> drops_w (os ! j) (os ! i))
          \<or> (\<exists>k. i < k \<and> k < length os \<and> \<not> is_eliminated (os ! k)
                  \<and> overlapping (os ! i) (os ! k) \<and> drops_o (os ! i) (os ! k))"
    using r(2) unfolding outer_post_def by blast
  have L: "length os' = length os"
    "\<forall>i<length os. os' ! i = os ! i \<or> os' ! i = eliminate (os ! i)"
    using m by (simp_all add: only_marks_def)
  show ?thesis
    using r(1) L A B unfolding pass2_def by blast
qed

theorem pass2_sweep_witness:
  "sorted (map (abpos \<circ> path) [short_o, twin_o, above_w])
   \<and> entwine (path short_o) (trace short_o) (path twin_o) (trace twin_o) = Some (0, 100)
   \<and> entwine (path short_o) (trace short_o) (path above_w) (trace above_w) = Some (15, - 1)
   \<and> entwine (path twin_o) (trace twin_o) (path above_w) (trace above_w) = Some (16, - 1)
   \<and> map_option (map is_eliminated) (pass2 [short_o, twin_o, above_w])
       = Some [True, True, False]"
proof -
  let ?os = "[short_o, twin_o, above_w]"
  have h1: "sorted (map (abpos \<circ> path) ?os)"
    by (simp add: examples_path trio_path)
  have h2: "\<forall>j k. j < k \<and> k < length ?os \<and> overlapping (?os ! j) (?os ! k) \<longrightarrow>
           entwine (path (?os ! j)) (trace (?os ! j)) (path (?os ! k)) (trace (?os ! k)) \<noteq> None"
  proof (intro allI impI)
    fix j k
    assume "j < k \<and> k < length ?os \<and> overlapping (?os ! j) (?os ! k)"
    then have "(j = 0 \<and> k = 1) \<or> (j = 0 \<and> k = 2) \<or> (j = 1 \<and> k = 2)"
      by auto
    then show "entwine (path (?os ! j)) (trace (?os ! j)) (path (?os ! k)) (trace (?os ! k)) \<noteq> None"
      using entwine_trio by auto
  qed
  obtain os' where r: "pass2 ?os = Some os'" "length os' = length ?os"
    and A: "\<forall>j k. j < k \<and> k < length ?os
              \<and> \<not> is_eliminated (os' ! j) \<and> \<not> is_eliminated (os' ! k)
              \<and> overlapping (?os ! j) (?os ! k)
          \<longrightarrow> \<not> drops_w (?os ! j) (?os ! k) \<and> \<not> drops_o (?os ! j) (?os ! k)"
    and B: "\<forall>i<length ?os. is_eliminated (os' ! i) \<and> \<not> is_eliminated (?os ! i) \<longrightarrow>
          (\<exists>j<i. \<not> is_eliminated (?os ! j) \<and> overlapping (?os ! j) (?os ! i)
                  \<and> drops_w (?os ! j) (?os ! i))
          \<or> (\<exists>k. i < k \<and> k < length ?os \<and> \<not> is_eliminated (?os ! k)
                  \<and> overlapping (?os ! i) (?os ! k) \<and> drops_o (?os ! i) (?os ! k))"
    using pass2_sweep [OF h1 h2] by blast
  have e2: "\<not> is_eliminated (os' ! 2)"
  proof
    assume "is_eliminated (os' ! 2)"
    then have "(\<exists>j<2. \<not> is_eliminated (?os ! j) \<and> overlapping (?os ! j) (?os ! 2)
                  \<and> drops_w (?os ! j) (?os ! 2))
          \<or> (\<exists>k. 2 < k \<and> k < length ?os \<and> \<not> is_eliminated (?os ! k)
                  \<and> overlapping (?os ! 2) (?os ! k) \<and> drops_o (?os ! 2) (?os ! k))"
      using B [THEN spec, of 2] trio_live by simp
    then obtain j where j: "j < 2" "drops_w (?os ! j) (?os ! 2)"
      by auto
    then have "j = 0 \<or> j = 1"
      by auto
    then show False
      using j(2) trio_drops by auto
  qed
  have e0: "is_eliminated (os' ! 0)"
  proof (rule ccontr)
    assume "\<not> is_eliminated (os' ! 0)"
    then have "\<not> drops_o (?os ! 0) (?os ! 2)"
      using A [THEN spec, THEN spec, of 0 2] e2 trio_drops by simp
    then show False
      using trio_drops by simp
  qed
  have e1: "is_eliminated (os' ! 1)"
  proof (rule ccontr)
    assume "\<not> is_eliminated (os' ! 1)"
    then have "\<not> drops_o (?os ! 1) (?os ! 2)"
      using A [THEN spec, THEN spec, of 1 2] e2 trio_drops by simp
    then show False
      using trio_drops by simp
  qed
  have "os' = [os' ! 0, os' ! 1, os' ! 2]"
    using r(2) by (auto simp: list_eq_iff_nth_eq less_Suc_eq numeral_3_eq_3 numeral_2_eq_2)
  then have "map is_eliminated os' = [is_eliminated (os' ! 0), is_eliminated (os' ! 1),
      is_eliminated (os' ! 2)]"
    by (metis list.simps(8) list.simps(9))
  then have "map is_eliminated os' = [True, True, False]"
    using e0 e1 e2 by simp
  then show ?thesis
    using r(1) h1 entwine_trio by simp
qed

text \<open>
  Claim C7 as stated fails in both directions.  \<open>inner_w\<close> lies inside \<open>wide_o\<close> in a and
  in b, \<open>entwine\<close> finds no crossing, and both are kept.  \<open>long_w\<close> reaches 200 bases
  beyond \<open>short_o\<close> in a, so it is not dominated, and it is eliminated.
\<close>

theorem pass2_dominated_counterexample:
  "entwine (path wide_o) (trace wide_o) (path inner_w) (trace inner_w) = Some (50, - 1)
   \<and> spec_dominated (path inner_w) (path wide_o)
   \<and> abpos (path inner_w) < aepos (path wide_o)
   \<and> bbpos (path inner_w) < bepos (path wide_o)
   \<and> bbpos (path wide_o) < bepos (path inner_w)
   \<and> map_option (map is_eliminated) (pass2 [wide_o, inner_w]) = Some [False, False]
   \<and> entwine (path short_o) (trace short_o) (path long_w) (trace long_w) = Some (- 10, - 1)
   \<and> \<not> spec_dominated (path long_w) (path short_o)
   \<and> map_option (map is_eliminated) (pass2 [short_o, long_w]) = Some [False, True]"
proof -
  have a: "map_option (map is_eliminated) (pass2 [wide_o, inner_w]) = Some [False, False]"
    using entwine_wide_inner examples_live
    by (simp add: pass2_pair_eval) (simp add: examples_path)
  have b: "map_option (map is_eliminated) (pass2 [short_o, long_w]) = Some [False, True]"
    using entwine_short_long examples_live
    by (simp add: pass2_pair_eval) (simp add: examples_path)
  have c: "spec_dominated (path inner_w) (path wide_o)"
    "\<not> spec_dominated (path long_w) (path short_o)"
    "abpos (path inner_w) < aepos (path wide_o)"
    "bbpos (path inner_w) < bepos (path wide_o)"
    "bbpos (path wide_o) < bepos (path inner_w)"
    by (simp_all add: spec_dominated_def examples_path)
  show ?thesis
    using a b c entwine_wide_inner entwine_short_long by simp
qed

section \<open>Properties of the chain sweep\<close>

text \<open>
  Claim C4, as the code has it.  With a chain under way, the next seed \<open>(npost, l)\<close>
  extends it exactly when \<open>npost < lps + CHAIN_BREAK\<close>, where \<open>lps\<close> is the covered end of
  the chain (the largest a-post + lcp so far); then \<open>lps\<close> becomes the maximum of \<open>lps\<close> and
  \<open>npost + l\<close>, \<open>cov\<close> grows by \<open>l\<close> when the seed starts at or beyond \<open>lps\<close>, by
  \<open>npost + l - lps\<close> when it overlaps and reaches beyond \<open>lps\<close>, and by nothing when it lies
  inside, and nothing is processed.  Otherwise the chain is processed and, unless the turn
  is the final one, a new chain is started from the seed with \<open>cov = l\<close> and
  \<open>lps = npost + l\<close>.
\<close>

theorem sweep_step_chain_rule:
  assumes "chain st = Some c"
  shows "(npost < lps st + CHAIN_BREAK P \<longrightarrow>
            (\<exists>st' c'. sweep_step P la fl new alen ao doff npost l dg wch go st = Inr st'
               \<and> lps st' = max (lps st) (npost + l)
               \<and> cov st' = cov st + (if npost + l \<le> lps st then 0
                                       else if lps st \<le> npost then l
                                       else npost + l - lps st)
               \<and> chain st' = Some c'
               \<and> jlist c' = jlist c @ [\<lparr>jpost = npost - dg, jlcp = l\<rparr>]
               \<and> apmin c' = apmin c
               \<and> nhit st' = nhit st \<and> tfile st' = tfile st \<and> aligned st' = aligned st))
       \<and> (\<not> npost < lps st + CHAIN_BREAK P \<longrightarrow>
            sweep_step P la fl new alen ao doff npost l dg wch go st =
              (case process_chain P la fl new alen ao doff st of
                 Inl x \<Rightarrow> Inl x
               | Inr st1 \<Rightarrow> Inr (if go then start_chain npost l dg wch st1 else st1)))
       \<and> cov (start_chain npost l dg wch st1) = l
       \<and> lps (start_chain npost l dg wch st1) = npost + l
       \<and> map_option jlist (chain (start_chain npost l dg wch st1))
           = Some [\<lparr>jpost = npost - dg, jlcp = l\<rparr>]"
  using assms
  by (auto simp: sweep_step_def extend_chain_def start_chain_def Let_def)

theorem sweep_step_chain_rule_witness:
  "chain demo_st = Some demo_chain
   \<and> (35 < lps demo_st + CHAIN_BREAK demo_P)
   \<and> (\<exists>st' c'. sweep_step demo_P demo_la 0 True 1000 960 (- 680) 35 20 0 1 True demo_st = Inr st'
         \<and> lps st' = 55 \<and> cov st' = 50 \<and> chain st' = Some c'
         \<and> jlist c' = jlist demo_chain @ [\<lparr>jpost = 35, jlcp = 20\<rparr>])"
proof -
  have h: "chain demo_st = Some demo_chain"
    by (simp add: demo_st_def)
  have v: "lps demo_st = 30" "cov demo_st = 30" "CHAIN_BREAK demo_P = 500"
    by (simp_all add: demo_st_def demo_P_def)
  have lt: "35 < lps demo_st + CHAIN_BREAK demo_P"
    by (simp add: v)
  from sweep_step_chain_rule
    [OF h, of 35 demo_P demo_la 0 True 1000 960 "- 680" 20 0 1 True demo_st]
  have "\<exists>st' c'. sweep_step demo_P demo_la 0 True 1000 960 (- 680) 35 20 0 1 True demo_st
                 = Inr st'
               \<and> lps st' = max (lps demo_st) (35 + 20)
               \<and> cov st' = cov demo_st + (if 35 + 20 \<le> lps demo_st then 0
                                            else if lps demo_st \<le> 35 then 20
                                            else 35 + 20 - lps demo_st)
               \<and> chain st' = Some c'
               \<and> jlist c' = jlist demo_chain @ [\<lparr>jpost = 35 - 0, jlcp = 20\<rparr>]
               \<and> apmin c' = apmin demo_chain
               \<and> nhit st' = nhit demo_st \<and> tfile st' = tfile demo_st
               \<and> aligned st' = aligned demo_st"
    using lt by blast
  then show ?thesis
    using h lt by (auto simp: v)
qed

text \<open>
  Claim C4 as stated identifies the break with the condition of the data model, that the
  next a-post exceeds the last a-post of the chain by more than \<open>CHAIN_BREAK\<close>.  With
  \<open>CHAIN_BREAK = 500\<close> and two seeds of 20 bases at a-posts 0 and 510 the second exceeds
  the first by more than 500, and the sweep still puts both into one chain, of cover 40,
  which passes \<open>CHAIN_MIN = 25\<close> and is aligned.
\<close>

theorem chain_break_counterexample:
  "CHAIN_BREAK demo_P = 500
   \<and> map ipost far_seeds = [0, 510]
   \<and> chain_search demo_P demo_la 0 True 1000 1000 far_seeds (mk_seed 0 0 0 0) =
      Inr \<lparr>lps = 530, cov = 40,
           chain = Some \<lparr>mix = 1,
                          jlist = [\<lparr>jpost = 0, jlcp = 20\<rparr>, \<lparr>jpost = 510, jlcp = 20\<rparr>],
                          dgmin = 0, dgmax = 0, apmin = 0\<rparr>,
           alast = 30, nhit = 1,
           tfile = [\<lparr>path = \<lparr>abpos = 0, bbpos = 0, aepos = 30, bepos = 30, diffs = 0\<rparr>,
                     flags = 0, trace = [0, 30]\<rparr>],
           aligned = [(- 680, - 680, 1210)]\<rparr>"
  by code_simp

section \<open>Properties of the chain filters\<close>

lemma band_Some_iff:
  "band cmp ao doff al apmax c \<noteq> None \<longleftrightarrow> (if cmp then apmax \<le> al else al \<le> apmin c)"
  by (simp add: band_def Let_def)

text \<open>
  Claim C5, as the code has it.  When a chain breaks, the local aligner is invoked, once
  and with the band computed from \<open>dgmin\<close>, \<open>dgmax\<close>, \<open>apmin\<close> and \<open>lps\<close>, exactly when
  \<open>cov \<ge> CHAIN_MIN\<close>, the chain has a seed of the upper bucket or the window is new
  (\<open>mix \<noteq> 1\<close> or \<open>new\<close>), \<open>jcov \<ge> CHAIN_MIN\<close>, and the chain is not blocked by the last
  alignment (\<open>apmin \<ge> alast\<close> for the same strand, \<open>lps \<le> alast\<close> for the opposite one).
  In every other case the chain is discarded without a call.
\<close>

theorem process_chain_aligner:
  assumes "chain st = Some c"
  shows "\<exists>st'. process_chain P la fl new alen ao doff st = Inr st'
      \<and> aligned st' =
          (if CHAIN_MIN P \<le> cov st \<and> (mix c \<noteq> 1 \<or> new)
              \<and> CHAIN_MIN P \<le> jcover (- 128) 0 (JSORT (jlist c))
              \<and> (if fl \<noteq> 0 then lps st \<le> alast st else alast st \<le> apmin c)
           then aligned st @ [the (band (fl \<noteq> 0) ao doff (alast st) (lps st) c)]
           else aligned st)"
proof (cases "fl = 0")
  case True
  then show ?thesis
    using assms by (auto simp: process_chain_def Let_def band_def split: prod.splits)
next
  case False
  then show ?thesis
    using assms by (auto simp: process_chain_def Let_def band_def split: prod.splits)
qed

theorem process_chain_aligner_witness:
  "chain demo_st = Some demo_chain
   \<and> (\<exists>st'. process_chain demo_P demo_la 0 True 1000 960 (- 680) demo_st = Inr st'
         \<and> aligned st' = [(- 680, - 680, 710)])"
proof -
  have h: "chain demo_st = Some demo_chain"
    by (simp add: demo_st_def)
  have j: "jcover (- 128) 0 (JSORT (jlist demo_chain)) = 30"
    by (simp add: demo_chain_def JSORT_def)
  have b: "band False 960 (- 680) (- 1) 30 demo_chain = Some (- 680, - 680, 710)"
    by (simp add: band_def demo_chain_def Let_def)
  have v: "cov demo_st = 30" "lps demo_st = 30" "alast demo_st = - 1" "aligned demo_st = []"
    "CHAIN_MIN demo_P = 25" "apmin demo_chain = 0"
    by (simp_all add: demo_st_def demo_P_def demo_chain_def)
  show ?thesis
    using process_chain_aligner [OF h, of demo_P demo_la 0 True 1000 960 "- 680"] h
    by (simp add: j b v)
qed

text \<open>
  Claim C5 as stated fails: a chain with \<open>cov = 30\<close> and \<open>jcov = 30\<close>, both at least
  \<open>CHAIN_MIN = 25\<close>, made of seeds of the lower bucket only (\<open>mix = 1\<close>) in a window that is
  not new, is dropped without a call of the aligner.
\<close>

theorem process_chain_counterexample:
  "CHAIN_MIN demo_P \<le> cov demo_st
   \<and> chain demo_st = Some demo_chain
   \<and> CHAIN_MIN demo_P \<le> jcover (- 128) 0 (JSORT (jlist demo_chain))
   \<and> aligned demo_st = []
   \<and> process_chain demo_P demo_la 0 False 1000 960 (- 680) demo_st = Inr demo_st"
  by (simp add: demo_st_def demo_P_def demo_chain_def JSORT_def process_chain_def)

section \<open>The result of align_contigs and the variable new\<close>

text \<open>
  Claim C10.  For two seeds on one diagonal bucket, 10 bases apart, the alignments that
  \<open>align_contigs\<close> writes depend on the value the uninitialised variable \<^verbatim>\<open>new\<close> holds
  when the first window is reached: one alignment when it is non-zero, none when it is
  zero.
\<close>

theorem align_contigs_uninitialised_new:
  "align_contigs demo_P demo_la 0 True 1000 1000 near_seeds (mk_seed 0 0 0 0) =
     Inr [\<lparr>path = \<lparr>abpos = 0, bbpos = 0, aepos = 30, bepos = 30, diffs = 0\<rparr>,
           flags = 0, trace = [0, 30]\<rparr>]
   \<and> align_contigs demo_P demo_la 0 False 1000 1000 near_seeds (mk_seed 0 0 0 0) = Inr []"
  by code_simp

section \<open>Properties of the re-import\<close>








text \<open>
  Claim C9.  On a shard file of length 0 the re-import does not complete: the loop
  imports a record from the stale content of the buffer before it looks at the amount
  read, then reaches \<^verbatim>\<open>memcpy(bufr,b,ex)\<close> with \<open>ex = - iunit\<close> (or fails earlier on the
  stale contig numbers), whatever the buffer held.
\<close>

theorem reimport_thread_empty_file:
  "isl (reimport_thread L kmer cmp rlens mem0 buck0 [])"
  by (simp add: reimport_thread_def reimport_loop.simps Let_def iunit_def
      split: sum.splits prod.splits)

text \<open>A file of one record is imported as that record, into slot 0 of its a-contig.\<close>

lemma import_demo:
  "import_record demo_L 40 False [5000] zero_vars demo_rec =
     Inr (\<lparr>v_ipost = 1020, v_jpost = 300, v_icont = 1, v_jcont = 0\<rparr>, 1,
          [20, 4, 252, 3, 0, 0, 89, 0, 0, 0, 0, 0])"
  by code_simp

lemma iolen_demo: "iolen demo_L = 2000000" "iunit demo_L = 13"
  by (simp_all add: iolen_def iunit_def demo_L_def)

lemma buf_demo: "map (read_into (\<lambda>i. 0) 0 2000000 demo_rec) [0..<13] = demo_rec"
  by (simp add: read_into_def demo_rec_def upt_rec)

lemma reimport_thread_one_record:
  "map_sum id sarr (reimport_thread demo_L 40 False [5000] (\<lambda>i. 0) [0, 0, 0] demo_rec) =
     Inr [(0, [20, 4, 252, 3, 0, 0, 89, 0, 0, 0, 0, 0])]"
proof -
  have len: "length demo_rec = 13"
    by (simp add: demo_rec_def)
  show ?thesis
    apply (simp add: reimport_thread_def iolen_demo len)
    apply (subst reimport_loop.simps)
    apply (simp add: iolen_demo buf_demo zero_vars_def [symmetric] import_demo Let_def len)
    done
qed

section \<open>Properties of the adaptamer merge\<close>

text \<open>
  The steps of one turn of the loop over T1 are total on a state that satisfies the
  invariant, keep the invariant, and move only the ring of positions until the label
  \<^verbatim>\<open>pairs\<close> is reached; the block at \<^verbatim>\<open>pairs\<close> writes the records of the entry when
  the number of positions in its range is below the cutoff, and none otherwise.
\<close>

lemma frame_refl [simp]: "frame st st"
  by (simp add: frame_def)

lemma frame_trans: "frame a b \<Longrightarrow> frame b c \<Longrightarrow> frame a c"
  by (simp add: frame_def)

lemma frame_load_posts: "frame st (load_posts P2 n st)"
proof (induction n arbitrary: st)
  case 0
  show ?case by simp
next
  case (Suc n)
  have "frame st (st\<lparr>pdx := (pdx st + 1) AND POST_BUF_MASK,
           post := (post st)((pdx st + 1) AND POST_BUF_MASK := P2 (p2idx st)),
           p2idx := p2idx st + 1\<rparr>)"
    by (simp add: frame_def)
  from frame_trans [OF this Suc.IH] show ?case
    by simp
qed

lemma frame_ADVANCE: "frame st (ADVANCE c ctop P2 l st)"
  using frame_load_posts [of st P2 "e_cnt (centry c ctop l)"]
  by (simp add: ADVANCE_def Let_def frame_def)

lemma skip_run_total:
  assumes "r \<le> length c" and "e_lcp ctop \<le> nlcp"
  shows "\<exists>r1 st1. skip_run c ctop P2 nlcp r st = Some (r1, st1) \<and> r \<le> r1 \<and> r1 \<le> length c
           \<and> e_lcp (centry c ctop r1) \<le> nlcp \<and> frame st st1"
  using assms
proof (induction c ctop P2 nlcp r st rule: skip_run.induct)
  case (1 c ctop P2 nlcp r st)
  show ?case
  proof (cases "e_lcp (centry c ctop r) > nlcp")
    case True
    then have lt: "r < length c"
      using 1(2,3) by (cases "r < length c") (auto simp: centry_def)
    from 1(1) [OF _ True] lt 1(3)
    obtain r1 st1 where
      "skip_run c ctop P2 nlcp (r + 1) (ADVANCE c ctop P2 r st) = Some (r1, st1)"
      "r + 1 \<le> r1" "r1 \<le> length c" "e_lcp (centry c ctop r1) \<le> nlcp"
      "frame (ADVANCE c ctop P2 r st) st1"
      by auto
    then show ?thesis
      using True lt frame_trans [OF frame_ADVANCE]
      by (subst skip_run.simps) auto
  next
    case False
    then show ?thesis
      using 1(2) by (subst skip_run.simps) auto
  qed
qed

lemma cnt_sum_split:
  "i \<le> j \<Longrightarrow> j \<le> k \<Longrightarrow> cnt_sum c ctop i k = cnt_sum c ctop i j + cnt_sum c ctop j k"
proof -
  assume a: "i \<le> j" "j \<le> k"
  then obtain d where d: "k = j + d"
    using le_Suc_ex by blast
  have "[i..<j + d] = [i..<j] @ [j..<j + d]"
    using a(1) by (rule upt_add_eq_append)
  then show ?thesis
    by (simp add: cnt_sum_def d)
qed

lemma cnt_sum_mono: "i \<le> j \<Longrightarrow> j \<le> k \<Longrightarrow> cnt_sum c ctop i j \<le> cnt_sum c ctop i k"
  using cnt_sum_split [of i j k c ctop] by simp

lemma cnt_sum_antimono: "i \<le> j \<Longrightarrow> j \<le> k \<Longrightarrow> cnt_sum c ctop j k \<le> cnt_sum c ctop i k"
  using cnt_sum_split [of i j k c ctop] by simp

lemma cnt_sum_one: "cnt_sum c ctop l (Suc l) = e_cnt (centry c ctop l)"
  by (simp add: cnt_sum_def)

lemma cnt_sum_empty [simp]: "cnt_sum c ctop l l = 0"
  by (simp add: cnt_sum_def)

lemma scan_less_total:
  assumes "r < length c" and "12 \<le> pl" and "e_lcp ctop = 11"
  shows "\<exists>x. scan_less c ctop P2 h m cc pl r st = Some x \<and>
           (case x of Inl (r1, st1) \<Rightarrow> r < r1 \<and> r1 \<le> length c \<and> frame st st1
            | Inr (r1, st1, d) \<Rightarrow> r \<le> r1 \<and> r1 < length c \<and> frame st st1)"
  using assms
proof (induction c ctop P2 h m cc pl r st rule: scan_less.induct)
  case (1 c ctop P2 h m cc pl r st)
  show ?case
  proof (cases "(e_suf (centry c ctop r) ! h) AND m < cc")
    case False
    then show ?thesis
      using 1(2) by (subst scan_less.simps) auto
  next
    case True
    show ?thesis
    proof (cases "e_lcp (centry c ctop (r + 1)) < pl")
      case lt: True
      then show ?thesis
        using True 1(2) frame_ADVANCE [of st c ctop P2 r]
        by (subst scan_less.simps) auto
    next
      case ge: False
      have r1: "r + 1 < length c"
      proof (rule ccontr)
        assume "\<not> r + 1 < length c"
        then have "centry c ctop (r + 1) = ctop"
          by (simp add: centry_def)
        then show False
          using ge 1(3,4) by simp
      qed
      have "\<exists>x. scan_less c ctop P2 h m cc pl (r + 1) (ADVANCE c ctop P2 r st) = Some x \<and>
           (case x of Inl (r1, st1) \<Rightarrow> r + 1 < r1 \<and> r1 \<le> length c \<and> frame (ADVANCE c ctop P2 r st) st1
            | Inr (r1, st1, d) \<Rightarrow> r + 1 \<le> r1 \<and> r1 < length c \<and> frame (ADVANCE c ctop P2 r st) st1)"
        using 1(2) True ge r1 1(3) 1(4) by (intro 1(1)) simp_all
      then obtain x where x: "scan_less c ctop P2 h m cc pl (r + 1) (ADVANCE c ctop P2 r st) = Some x"
        "case x of Inl (r1, st1) \<Rightarrow> r + 1 < r1 \<and> r1 \<le> length c \<and> frame (ADVANCE c ctop P2 r st) st1
            | Inr (r1, st1, d) \<Rightarrow> r + 1 \<le> r1 \<and> r1 < length c \<and> frame (ADVANCE c ctop P2 r st) st1"
        by (elim exE conjE)
      have A: "scan_less c ctop P2 h m cc pl r st = Some x"
        using True ge r1 x(1) by (subst scan_less.simps) simp
      have B: "case x of Inl (r1, st1) \<Rightarrow> r < r1 \<and> r1 \<le> length c \<and> frame st st1
            | Inr (r1, st1, d) \<Rightarrow> r \<le> r1 \<and> r1 < length c \<and> frame st st1"
      proof (cases x)
        case (Inl a)
        then show ?thesis
          using x(2) frame_trans [OF frame_ADVANCE [of st c ctop P2 r]]
          by (cases a) auto
      next
        case (Inr b)
        then show ?thesis
          using x(2) frame_trans [OF frame_ADVANCE [of st c ctop P2 r]]
          by (cases b) auto
      qed
      show ?thesis
        by (rule exI [of _ x]) (use A B in simp)
    qed
  qed
qed

lemma frame_keeps: "frame st st1 \<Longrightarrow> keeps st st1"
  by (simp add: frame_def keeps_def)

lemma low_ok_mono: "low_ok c ctop F lo r \<Longrightarrow> r \<le> r' \<Longrightarrow> low_ok c ctop F lo r'"
  using cnt_sum_mono [of "nat lo" r r' c ctop]
  by (auto simp: low_ok_def)

lemma extend_total:
  assumes "r < length c" and "12 \<le> pl" and "e_lcp ctop = 11"
    and "\<forall>k\<in>{12..pl}. vlcp st k \<le> r"
    and "low_ok c ctop F (vlow st) r"
    and "\<not> eorun st"
  shows "\<exists>st2. extend K c ctop P2 suf1 pl r st = Some st2 \<and> merge_inv c ctop F st2
           \<and> keeps st st2 \<and> r \<le> rend st2"
  using assms
proof (induction K c ctop P2 suf1 pl r st rule: extend.induct)
  case (1 K c ctop P2 suf1 pl r st)
  define cc where "cc = (e_suf suf1 ! (cbyte ! pl)) AND (mbyte ! pl)"
  show ?case
  proof (cases "pl < K")
    case False
    have f: "frame st (ADVANCE c ctop P2 r st)"
      by (rule frame_ADVANCE)
    have "merge_inv c ctop F ((ADVANCE c ctop P2 r st)\<lparr>plen := pl, rend := r + 1, eorun := True\<rparr>)"
      using 1(2,3,5) low_ok_mono [OF 1(6), of "r + 1"] f
      by (auto simp: merge_inv_def minv_def frame_def le_Suc_eq less_Suc_eq_le)
    moreover have "keeps st ((ADVANCE c ctop P2 r st)\<lparr>plen := pl, rend := r + 1, eorun := True\<rparr>)"
      using f by (simp add: keeps_def frame_def)
    ultimately show ?thesis
      using False 1(2) by (subst extend.simps) simp
  next
    case True
    obtain x where x: "scan_less c ctop P2 (cbyte ! pl) (mbyte ! pl) cc pl r st = Some x"
      "case x of Inl (r1, st1) \<Rightarrow> r < r1 \<and> r1 \<le> length c \<and> frame st st1
            | Inr (r1, st1, d) \<Rightarrow> r \<le> r1 \<and> r1 < length c \<and> frame st st1"
      using scan_less_total [OF 1(2) 1(3) 1(4), of P2 "cbyte ! pl" "mbyte ! pl" cc st]
      by (elim exE conjE)
    show ?thesis
    proof (cases x)
      case (Inl a)
      obtain r1 st1 where a: "a = (r1, st1)" by (cases a)
      have p: "r < r1" "r1 \<le> length c" "frame st st1"
        using x(2) Inl a by simp_all
      have "\<forall>k\<in>{12..pl}. vlcp st k < r1"
        using 1(5) p(1) by (meson le_less_trans)
      then have "merge_inv c ctop F (st1\<lparr>plen := pl, rend := r1, eorun := True\<rparr>)"
        using 1(3,5) p low_ok_mono [OF 1(6), of r1]
        by (auto simp: merge_inv_def minv_def frame_def)
      moreover have "keeps st (st1\<lparr>plen := pl, rend := r1, eorun := True\<rparr>)"
        using p(3) by (simp add: keeps_def frame_def)
      ultimately show ?thesis
        using True x(1) Inl a p(1)
        by (subst extend.simps) (simp add: cc_def [symmetric])
    next
      case (Inr b)
      obtain r1 st1 d where b: "b = (r1, st1, d)" by (cases b)
      have p: "r \<le> r1" "r1 < length c" "frame st st1"
        using x(2) Inr b by simp_all
      show ?thesis
      proof (cases "d > cc")
        case gt: True
        have "merge_inv c ctop F (st1\<lparr>plen := pl, rend := r1\<rparr>)"
          using 1(3,5,7) p low_ok_mono [OF 1(6), of r1]
          by (auto simp: merge_inv_def minv_def frame_def)
        moreover have "keeps st (st1\<lparr>plen := pl, rend := r1\<rparr>)"
          using p(3) by (simp add: keeps_def frame_def)
        ultimately show ?thesis
          using True x(1) Inr b p(1) gt
          by (subst extend.simps) (simp add: cc_def [symmetric])
      next
        case le: False
        let ?st = "st1\<lparr>vlcp := (vlcp st1)(pl + 1 := r1)\<rparr>"
        have v: "\<forall>k\<in>{12..pl + 1}. vlcp ?st k \<le> r1"
        proof
          fix k
          assume k: "k \<in> {12..pl + 1}"
          show "vlcp ?st k \<le> r1"
          proof (cases "k = pl + 1")
            case True
            then show ?thesis by simp
          next
            case False
            then have "k \<in> {12..pl}"
              using k by simp
            then have "vlcp st k \<le> r"
              using 1(5) by blast
            then show ?thesis
              using False p by (simp add: frame_def)
          qed
        qed
        have l: "low_ok c ctop F (vlow ?st) r1"
          using low_ok_mono [OF 1(6) p(1)] p(3) by (simp add: frame_def)
        have ne: "\<not> eorun ?st"
          using 1(7) p(3) by (simp add: frame_def)
        have "\<exists>st2. extend K c ctop P2 suf1 (pl + 1) r1 ?st = Some st2
             \<and> merge_inv c ctop F st2 \<and> keeps ?st st2 \<and> r1 \<le> rend st2"
          using True x(1) Inr b le p(2) 1(3) 1(4) v l ne
          by (intro 1(1)) (simp_all add: cc_def)
        then obtain st2 where st2: "extend K c ctop P2 suf1 (pl + 1) r1 ?st = Some st2"
          "merge_inv c ctop F st2" "keeps ?st st2" "r1 \<le> rend st2"
          by (elim exE conjE)
        have "keeps st st2"
          using st2(3) p(3) by (simp add: keeps_def frame_def)
        moreover have "extend K c ctop P2 suf1 pl r st = Some st2"
          using True x(1) Inr b le st2(1)
          by (subst extend.simps) (simp add: cc_def [symmetric])
        ultimately show ?thesis
          using st2(2,4) p(1) by simp
      qed
    qed
  qed
qed

lemma centry_top: "e_lcp ctop = 11 \<Longrightarrow> r \<le> length c \<Longrightarrow> 12 \<le> e_lcp (centry c ctop r)
    \<Longrightarrow> r < length c"
  by (cases "r < length c") (auto simp: centry_def)

lemma vlcp_le:
  fixes pl pl' r r' :: nat
  shows "\<forall>k\<in>{12..pl}. vl k \<le> r \<Longrightarrow> pl' \<le> pl \<Longrightarrow> r \<le> r'
    \<Longrightarrow> \<forall>k\<in>{12..pl'}. vl k \<le> r'"
  by (meson atLeastAtMost_iff le_trans)

lemma adjust_total:
  assumes inv: "merge_inv c ctop F st" and n12: "12 \<le> e_lcp suf1" and top: "e_lcp ctop = 11"
  shows "\<exists>g st1. adjust c ctop P2 suf1 st = Some (g, st1) \<and> merge_inv c ctop F st1
           \<and> keeps st st1 \<and> (g \<or> (rend st1 < length c \<and> \<not> eorun st1))"
proof -
  have i: "12 \<le> plen st" "rend st \<le> length c" "eorun st \<or> rend st < length c"
    "\<forall>k\<in>{12..plen st}. vlcp st k \<le> rend st" "low_ok c ctop F (vlow st) (rend st)"
    "eorun st \<longrightarrow> (\<forall>k\<in>{12..plen st}. vlcp st k < rend st)"
    using inv by (simp_all add: merge_inv_def minv_def)
  consider (gt) "e_lcp suf1 > plen st" | (eq) "e_lcp suf1 = plen st" | (lt) "e_lcp suf1 < plen st"
    by linarith
  then show ?thesis
  proof cases
    case gt
    then show ?thesis
      using inv by (auto simp: adjust_def keeps_def)
  next
    case eq
    then show ?thesis
      using inv i(3) by (auto simp: adjust_def keeps_def)
  next
    case lt
    define st0 where "st0 = (if \<not> eorun st then ADVANCE c ctop P2 (rend st) st else st)"
    define r0 where "r0 = (if \<not> eorun st then rend st + 1 else rend st)"
    have f0: "frame st st0"
      by (simp add: st0_def frame_ADVANCE)
    have r0: "rend st \<le> r0" "r0 \<le> length c"
      using i(2,3) by (auto simp: r0_def)
    have "\<exists>r1 st1. skip_run c ctop P2 (e_lcp suf1) r0 st0 = Some (r1, st1) \<and> r0 \<le> r1
        \<and> r1 \<le> length c \<and> e_lcp (centry c ctop r1) \<le> e_lcp suf1 \<and> frame st0 st1"
      using r0(2) n12 top by (intro skip_run_total) simp_all
    then obtain r1 st1 where s: "skip_run c ctop P2 (e_lcp suf1) r0 st0 = Some (r1, st1)"
      "r0 \<le> r1" "r1 \<le> length c" "e_lcp (centry c ctop r1) \<le> e_lcp suf1" "frame st0 st1"
      by (elim exE conjE)
    have f1: "frame st st1"
      using frame_trans [OF f0 s(5)] .
    have rr: "rend st \<le> r1"
      using r0(1) s(2) by simp
    have sk: "(if \<not> eorun st
               then skip_run c ctop P2 (e_lcp suf1) (rend st + 1) (ADVANCE c ctop P2 (rend st) st)
               else skip_run c ctop P2 (e_lcp suf1) (rend st) st) = Some (r1, st1)"
      using s(1) by (cases "eorun st") (simp_all add: st0_def r0_def)
    have lo: "low_ok c ctop F (vlow st1) r1"
      using low_ok_mono [OF i(5) rr] f1 by (simp add: frame_def)
    show ?thesis
    proof (cases "e_lcp (centry c ctop r1) < e_lcp suf1")
      case True
      let ?st = "st1\<lparr>rend := r1, eorun := True, plen := e_lcp suf1\<rparr>"
      have "\<forall>k\<in>{12..e_lcp suf1}. vlcp st k \<le> r1"
        using vlcp_le [OF i(4) _ rr, of "e_lcp suf1"] lt by simp
      moreover have "\<forall>k\<in>{12..e_lcp suf1}. vlcp st k < r1"
      proof
        fix k
        assume "k \<in> {12..e_lcp suf1}"
        then have k: "k \<in> {12..plen st}"
          using lt by simp
        show "vlcp st k < r1"
        proof (cases "eorun st")
          case True
          then have "vlcp st k < rend st"
            using i(6) k by blast
          then show ?thesis
            using rr by simp
        next
          case False
          then have "rend st < r1"
            using s(2) by (simp add: r0_def)
          moreover have "vlcp st k \<le> rend st"
            using i(4) k by blast
          ultimately show ?thesis
            by simp
        qed
      qed
      ultimately have "merge_inv c ctop F ?st"
        using n12 s(3) lo f1 by (simp add: merge_inv_def minv_def frame_def)
      moreover have "keeps st ?st"
        using f1 by (simp add: keeps_def frame_def)
      moreover have "adjust c ctop P2 suf1 st = Some (True, ?st)"
        using lt True sk by (simp add: adjust_def)
      ultimately show ?thesis by blast
    next
      case False
      then have e: "e_lcp (centry c ctop r1) = e_lcp suf1"
        using s(4) by simp
      let ?st = "st1\<lparr>rend := r1, plen := e_lcp (centry c ctop r1), eorun := False\<rparr>"
      have r1: "r1 < length c"
        using centry_top [OF top s(3)] e n12 by simp
      have "\<forall>k\<in>{12..e_lcp suf1}. vlcp st k \<le> r1"
        using vlcp_le [OF i(4) _ rr, of "e_lcp suf1"] lt by simp
      then have "merge_inv c ctop F ?st"
        using n12 r1 lo f1 e by (simp add: merge_inv_def minv_def frame_def)
      moreover have "keeps st ?st"
        using f1 by (simp add: keeps_def frame_def)
      moreover have "adjust c ctop P2 suf1 st = Some (False, ?st)"
        using lt False sk by (simp add: adjust_def)
      moreover have "rend ?st < length c \<and> \<not> eorun ?st"
        using r1 by simp
      ultimately show ?thesis by blast
    qed
  qed
qed

lemma back_scan_spec:
  "vcp \<le> l1 \<Longrightarrow>
     (case back_scan c ctop F vcp l1 freq of
        Inl l \<Rightarrow> vcp \<le> l \<and> l < l1 \<and> F \<le> freq + cnt_sum c ctop l l1
      | Inr f \<Rightarrow> f = freq + cnt_sum c ctop vcp l1 \<and> (vcp < l1 \<longrightarrow> f < F))"
proof (induction c ctop F vcp l1 freq rule: back_scan.induct)
  case (1 c ctop F vcp l1 freq)
  show ?case
  proof (cases "l1 > vcp")
    case False
    then show ?thesis
      using 1(2) by (subst back_scan.simps) simp
  next
    case True
    then obtain l where l: "l1 = Suc l"
      by (cases l1) auto
    have m: "l1 - 1 = l"
      using l by simp
    have one: "cnt_sum c ctop l l1 = e_cnt (centry c ctop l)"
      by (simp add: l cnt_sum_one)
    show ?thesis
    proof (cases "freq + e_cnt (centry c ctop l) \<ge> F")
      case ge: True
      then show ?thesis
        using True l one by (subst back_scan.simps) simp
    next
      case lt: False
      have vl: "vcp \<le> l"
        using True l by simp
      have ih: "case back_scan c ctop F vcp l (freq + e_cnt (centry c ctop l)) of
          Inl k \<Rightarrow> vcp \<le> k \<and> k < l \<and> F \<le> freq + e_cnt (centry c ctop l) + cnt_sum c ctop k l
        | Inr f \<Rightarrow> f = freq + e_cnt (centry c ctop l) + cnt_sum c ctop vcp l \<and> (vcp < l \<longrightarrow> f < F)"
        using 1(1) [OF True] lt vl unfolding m by simp
      have eq: "back_scan c ctop F vcp l1 freq
          = back_scan c ctop F vcp l (freq + e_cnt (centry c ctop l))"
        using True lt l by (subst back_scan.simps) simp
      show ?thesis
      proof (cases "back_scan c ctop F vcp l (freq + e_cnt (centry c ctop l))")
        case (Inl k)
        then have k: "vcp \<le> k" "k < l" "F \<le> freq + e_cnt (centry c ctop l) + cnt_sum c ctop k l"
          using ih by auto
        have "cnt_sum c ctop k l1 = cnt_sum c ctop k l + cnt_sum c ctop l l1"
          using k(2) l by (intro cnt_sum_split) simp_all
        then show ?thesis
          using k one l Inl eq by simp
      next
        case (Inr f)
        then have f: "f = freq + e_cnt (centry c ctop l) + cnt_sum c ctop vcp l" "vcp < l \<longrightarrow> f < F"
          using ih by auto
        have "cnt_sum c ctop vcp l1 = cnt_sum c ctop vcp l + cnt_sum c ctop l l1"
          using vl l by (intro cnt_sum_split) simp_all
        moreover have "f < F"
          using f lt vl by (cases "vcp < l") auto
        ultimately show ?thesis
          using f one Inr eq by simp
      qed
    qed
  qed
qed

lemma run_end_ge: "l \<le> run_end c pl l"
  by (induction c pl l rule: run_end.induct) (subst run_end.simps, auto simp del: run_end.simps)

lemma run_end_le: "l \<le> length c \<Longrightarrow> run_end c pl l \<le> length c"
  by (induction c pl l rule: run_end.induct) (subst run_end.simps, auto simp del: run_end.simps)

lemma look_ahead_spec:
  assumes "l \<le> length c" and "12 \<le> pl" and "e_lcp ctop = 11"
  shows "\<exists>x. look_ahead c ctop P2 F pl l freq st = Some x \<and>
     (case x of
        Inl st1 \<Rightarrow> frame st st1 \<and> F \<le> freq + cnt_sum c ctop l (run_end c pl l)
      | Inr (f, st1) \<Rightarrow> frame st st1 \<and> f = freq + cnt_sum c ctop l (run_end c pl l)
                         \<and> (freq < F \<longrightarrow> f < F))"
  using assms
proof (induction c ctop P2 F pl l freq st rule: look_ahead.induct)
  case (1 c ctop P2 F pl l freq st)
  show ?case
  proof (cases "e_lcp (centry c ctop l) \<ge> pl")
    case False
    have "run_end c pl l = l"
      using False by (subst run_end.simps) (auto simp: centry_def)
    then show ?thesis
      using False 1(2) by (subst look_ahead.simps) simp
  next
    case True
    have ll: "l < length c"
      using centry_top [OF 1(4) 1(2)] True 1(3) by simp
    have re: "run_end c pl l = run_end c pl (l + 1)"
      using True ll by (subst run_end.simps) (simp add: centry_def)
    have sp: "cnt_sum c ctop l (run_end c pl (l + 1))
        = e_cnt (centry c ctop l) + cnt_sum c ctop (l + 1) (run_end c pl (l + 1))"
      using cnt_sum_split [of l "l + 1" "run_end c pl (l + 1)" c ctop] run_end_ge [of "l + 1" c pl]
      by (simp add: cnt_sum_one)
    show ?thesis
    proof (cases "freq + e_cnt (centry c ctop l) \<ge> F")
      case ge: True
      then show ?thesis
        using True ll re sp by (subst look_ahead.simps) simp
    next
      case lt: False
      have "\<exists>x. look_ahead c ctop P2 F pl (l + 1) (freq + e_cnt (centry c ctop l))
                 (ADVANCE c ctop P2 l st) = Some x \<and>
         (case x of
            Inl st1 \<Rightarrow> frame (ADVANCE c ctop P2 l st) st1
              \<and> F \<le> freq + e_cnt (centry c ctop l) + cnt_sum c ctop (l + 1) (run_end c pl (l + 1))
          | Inr (f, st1) \<Rightarrow> frame (ADVANCE c ctop P2 l st) st1
              \<and> f = freq + e_cnt (centry c ctop l) + cnt_sum c ctop (l + 1) (run_end c pl (l + 1))
              \<and> (freq + e_cnt (centry c ctop l) < F \<longrightarrow> f < F))"
        using True lt ll 1(3) 1(4) by (intro 1(1)) simp_all
      then obtain x where x:
        "look_ahead c ctop P2 F pl (l + 1) (freq + e_cnt (centry c ctop l))
                 (ADVANCE c ctop P2 l st) = Some x"
        "case x of
            Inl st1 \<Rightarrow> frame (ADVANCE c ctop P2 l st) st1
              \<and> F \<le> freq + e_cnt (centry c ctop l) + cnt_sum c ctop (l + 1) (run_end c pl (l + 1))
          | Inr (f, st1) \<Rightarrow> frame (ADVANCE c ctop P2 l st) st1
              \<and> f = freq + e_cnt (centry c ctop l) + cnt_sum c ctop (l + 1) (run_end c pl (l + 1))
              \<and> (freq + e_cnt (centry c ctop l) < F \<longrightarrow> f < F)"
        by (elim exE conjE)
      have A: "look_ahead c ctop P2 F pl l freq st = Some x"
        using True lt ll x(1) by (subst look_ahead.simps) simp
      have B: "case x of
        Inl st1 \<Rightarrow> frame st st1 \<and> F \<le> freq + cnt_sum c ctop l (run_end c pl l)
      | Inr (f, st1) \<Rightarrow> frame st st1 \<and> f = freq + cnt_sum c ctop l (run_end c pl l)
                         \<and> (freq < F \<longrightarrow> f < F)"
      proof (cases x)
        case (Inl a)
        then show ?thesis
          using x(2) frame_trans [OF frame_ADVANCE [of st c ctop P2 l]] re sp by simp
      next
        case (Inr b)
        then show ?thesis
          using x(2) frame_trans [OF frame_ADVANCE [of st c ctop P2 l]] re sp lt
          by (cases b) auto
      qed
      show ?thesis
        by (rule exI [of _ x]) (use A B in simp)
    qed
  qed
qed

lemma seed_recs_length: "length (seed_recs L Sel pl pst bb freq a) = freq"
  by (simp add: seed_recs_def)

lemma seed_recs_lcp: "x \<in> set (seed_recs L Sel pl pst bb freq a) \<Longrightarrow> r_lcp x = pl"
  by (auto simp: seed_recs_def)

lemma seed_recs_zero [simp]: "seed_recs L Sel pl pst bb 0 a = []"
  by (simp add: seed_recs_def)

lemma concat_seed_recs_length:
  "length (concat (map (\<lambda>i. seed_recs L Sel pl pst bb freq (g i)) [0..<n])) = n * freq"
  by (induction n) (simp_all add: seed_recs_length)

lemma concat_seed_recs_zero [simp]:
  "concat (map (\<lambda>i. seed_recs L Sel pl pst bb 0 (g i)) xs) = []"
  by (induction xs) simp_all

lemma seeds_of_zero [simp]: "seeds_of L Sel P1 suf1 pl p1 0 pst bb = []"
  by (simp add: seeds_of_def)

lemma range_same:
  "plen b = plen a \<Longrightarrow> rend b = rend a \<Longrightarrow> eorun b = eorun a \<Longrightarrow> vlcp b = vlcp a
     \<Longrightarrow> range_total c ctop b = range_total c ctop a"
  by (simp add: range_total_def range_end_def)

lemma inv_same:
  "plen b = plen a \<Longrightarrow> rend b = rend a \<Longrightarrow> eorun b = eorun a \<Longrightarrow> vlcp b = vlcp a
     \<Longrightarrow> vlow b = vlow a \<Longrightarrow> merge_inv c ctop F a \<Longrightarrow> merge_inv c ctop F b"
  by (simp add: merge_inv_def)

lemma range_pos:
  assumes inv: "merge_inv c ctop F st" and pos: "\<forall>e\<in>set c. 0 < e_cnt e"
  shows "0 < range_total c ctop st"
proof -
  define v where "v = vlcp st (plen st)"
  have i: "12 \<le> plen st" "rend st \<le> length c" "eorun st \<or> rend st < length c"
    "\<forall>k\<in>{12..plen st}. vlcp st k \<le> rend st"
    "eorun st \<longrightarrow> (\<forall>k\<in>{12..plen st}. vlcp st k < rend st)"
    using inv by (simp_all add: merge_inv_def minv_def)
  have v: "v < range_end c st" "range_end c st \<le> length c"
  proof -
    show "v < range_end c st"
    proof (cases "eorun st")
      case True
      then show ?thesis
        using i(1,5) by (simp add: range_end_def v_def)
    next
      case False
      have "v \<le> rend st"
        using i(1,4) by (simp add: v_def)
      then show ?thesis
        using False run_end_ge [of "rend st + 1" c "plen st"] by (simp add: range_end_def)
    qed
    show "range_end c st \<le> length c"
      using i(2,3) run_end_le [of "rend st + 1" c "plen st"] by (auto simp: range_end_def)
  qed
  have "cnt_sum c ctop v (range_end c st)
      = cnt_sum c ctop v (Suc v) + cnt_sum c ctop (Suc v) (range_end c st)"
    using v(1) by (intro cnt_sum_split) simp_all
  moreover have "0 < e_cnt (centry c ctop v)"
    using pos v by (simp add: centry_def)
  ultimately show ?thesis
    by (simp add: range_total_def v_def [symmetric] cnt_sum_one)
qed

lemma keeps_trans: "keeps a b \<Longrightarrow> keeps b c \<Longrightarrow> keeps a c"
  by (simp add: keeps_def)

lemma merge_entries_snoc:
  "merge_entries F K L Sel c ctop P1 P2 first (xs @ [x]) st =
     (case merge_entries F K L Sel c ctop P1 P2 first xs st of
        None \<Rightarrow> None
      | Some st1 \<Rightarrow> merge_entry F K L Sel c ctop P1 P2 (first \<and> xs = []) x st1)"
proof (induction xs arbitrary: first st)
  case Nil
  show ?case
    by (simp split: option.splits)
next
  case (Cons y ys)
  show ?case
    by (simp add: Cons.IH split: option.splits)
qed

text \<open>
  The ring of positions: what \<^verbatim>\<open>ADVANCE\<close> reads stays in its slot as long as the range
  of the entry needs it.
\<close>

lemma and_buf_mask: "(x::nat) AND POST_BUF_MASK = x mod POST_BUF_LEN"
proof -
  have "POST_BUF_MASK = mask 12"
    by (simp add: POST_BUF_MASK_def mask_eq_exp_minus_1)
  then have "x AND POST_BUF_MASK = take_bit 12 x"
    by (simp add: take_bit_eq_mask)
  then show ?thesis
    by (simp add: take_bit_eq_mod POST_BUF_LEN_def)
qed

lemma slot_distinct:
  assumes "j < M" and "M < j + POST_BUF_LEN"
  shows "j mod POST_BUF_LEN \<noteq> M mod POST_BUF_LEN"
proof
  assume "j mod POST_BUF_LEN = M mod POST_BUF_LEN"
  then have "POST_BUF_LEN dvd M - j"
    using assms(1) by (metis mod_eq_dvd_iff_nat less_imp_le)
  then have "POST_BUF_LEN \<le> M - j"
    using assms(1) by (intro dvd_imp_le) simp_all
  then show False
    using assms by simp
qed

lemma load_posts_keep: "cdx (load_posts P2 n st) = cdx st \<and> vhgh (load_posts P2 n st) = vhgh st"
  by (induction n arbitrary: st) simp_all

lemma load_posts_loaded:
  "loaded P2 B M st \<Longrightarrow> loaded P2 B (M + n) (load_posts P2 n st)"
proof (induction n arbitrary: st M)
  case 0
  then show ?case by simp
next
  case (Suc n)
  let ?s = "(pdx st + 1) AND POST_BUF_MASK"
  let ?st = "st\<lparr>pdx := ?s, post := (post st)(?s := P2 (p2idx st)), p2idx := p2idx st + 1\<rparr>"
  have l: "p2idx st = B + M" "pdx st = (M + POST_BUF_MASK) mod POST_BUF_LEN"
    "\<forall>j. j < M \<and> M \<le> j + POST_BUF_LEN \<longrightarrow> post st (j mod POST_BUF_LEN) = P2 (B + j)"
    using Suc.prems by (simp_all add: loaded_def)
  have s: "?s = M mod POST_BUF_LEN"
  proof -
    have "?s = ((M + POST_BUF_MASK) mod POST_BUF_LEN + 1) mod POST_BUF_LEN"
      by (simp add: and_buf_mask l(2))
    also have "\<dots> = (M + POST_BUF_MASK + 1) mod POST_BUF_LEN"
      by (rule mod_add_left_eq)
    also have "\<dots> = M mod POST_BUF_LEN"
      by (simp add: POST_BUF_MASK_def POST_BUF_LEN_def)
    finally show ?thesis .
  qed
  have "loaded P2 B (M + 1) ?st"
    unfolding loaded_def
  proof (intro conjI allI impI)
    show "p2idx ?st = B + (M + 1)"
      using l(1) by simp
    show "pdx ?st = (M + 1 + POST_BUF_MASK) mod POST_BUF_LEN"
      using s by (simp add: POST_BUF_MASK_def POST_BUF_LEN_def)
  next
    fix j
    assume j: "j < M + 1 \<and> M + 1 \<le> j + POST_BUF_LEN"
    show "post ?st (j mod POST_BUF_LEN) = P2 (B + j)"
    proof (cases "j = M")
      case True
      then show ?thesis
        using s l(1) by simp
    next
      case False
      then have jm: "j < M" "M < j + POST_BUF_LEN"
        using j by simp_all
      then have "j mod POST_BUF_LEN \<noteq> ?s"
        using slot_distinct [OF jm] s by simp
      moreover have "post st (j mod POST_BUF_LEN) = P2 (B + j)"
        using l(3) jm by simp
      ultimately show ?thesis
        by simp
    qed
  qed
  from Suc.IH [OF this] show ?case
    by simp
qed

lemma cnt_sum_Suc: "i \<le> l \<Longrightarrow> cnt_sum c ctop i (Suc l) = cnt_sum c ctop i l + e_cnt (centry c ctop l)"
  by (simp add: cnt_sum_def)

lemma ADVANCE_ring:
  assumes r: "ring c ctop P2 B l st" and l: "l < length c"
  shows "ring c ctop P2 B (l + 1) (ADVANCE c ctop P2 l st)
       \<and> vhgh (ADVANCE c ctop P2 l st) = max (vhgh st) (l + 1)"
proof -
  define n where "n = e_cnt (centry c ctop l)"
  have i: "l \<le> vhgh st" "vhgh st \<le> length c" "cdx st = cnt_sum c ctop 0 l mod POST_BUF_LEN"
    "loaded P2 B (cnt_sum c ctop 0 (vhgh st)) st"
    using r by (simp_all add: ring_def)
  have N: "cnt_sum c ctop 0 (l + 1) = cnt_sum c ctop 0 l + n"
    by (simp add: cnt_sum_Suc n_def)
  have cd: "(cnt_sum c ctop 0 l mod POST_BUF_LEN + n) mod POST_BUF_LEN
      = cnt_sum c ctop 0 (l + 1) mod POST_BUF_LEN"
    unfolding N by (rule mod_add_left_eq)
  show ?thesis
  proof (cases "l \<ge> vhgh st")
    case True
    then have e: "vhgh st = l"
      using i(1) by simp
    have "loaded P2 B (cnt_sum c ctop 0 l + n) (load_posts P2 n st)"
      using load_posts_loaded [OF i(4), of n] by (simp add: e)
    then have "loaded P2 B (cnt_sum c ctop 0 (l + 1)) (load_posts P2 n st)"
      by (simp only: N)
    then have "loaded P2 B (cnt_sum c ctop 0 (l + 1)) (ADVANCE c ctop P2 l st)"
      using True by (simp add: ADVANCE_def Let_def loaded_def n_def)
    moreover have "vhgh (ADVANCE c ctop P2 l st) = l + 1"
      using True by (simp add: ADVANCE_def Let_def)
    moreover have "cdx (ADVANCE c ctop P2 l st) = cnt_sum c ctop 0 (l + 1) mod POST_BUF_LEN"
      using True cd i(3) load_posts_keep [of P2 n st]
      by (simp add: ADVANCE_def Let_def and_buf_mask n_def)
    ultimately show ?thesis
      using l e by (simp add: ring_def)
  next
    case False
    then have "loaded P2 B (cnt_sum c ctop 0 (vhgh st)) (ADVANCE c ctop P2 l st)"
      using i(4) by (simp add: ADVANCE_def Let_def loaded_def)
    moreover have "vhgh (ADVANCE c ctop P2 l st) = vhgh st"
      using False by (simp add: ADVANCE_def Let_def)
    moreover have "cdx (ADVANCE c ctop P2 l st) = cnt_sum c ctop 0 (l + 1) mod POST_BUF_LEN"
      using False cd i(3) by (simp add: ADVANCE_def Let_def and_buf_mask n_def)
    ultimately show ?thesis
      using False i(2) by (simp add: ring_def max_def)
  qed
qed

lemma skip_run_ring:
  assumes "skip_run c ctop P2 nlcp r st = Some (r1, st1)"
    and "ring c ctop P2 B r st" and "e_lcp ctop \<le> nlcp"
  shows "r \<le> r1 \<and> ring c ctop P2 B r1 st1 \<and> vhgh st1 = max (vhgh st) r1
       \<and> (\<forall>i. r \<le> i \<and> i < r1 \<longrightarrow> nlcp < e_lcp (c ! i)) \<and> frame st st1"
  using assms
proof (induction c ctop P2 nlcp r st rule: skip_run.induct)
  case (1 c ctop P2 nlcp r st)
  have rv: "r \<le> vhgh st" "vhgh st \<le> length c"
    using 1(3) by (simp_all add: ring_def)
  then have rl: "r \<le> length c"
    by simp
  show ?case
  proof (cases "e_lcp (centry c ctop r) > nlcp")
    case True
    then have lt: "r < length c"
      using rl 1(4) by (cases "r < length c") (auto simp: centry_def)
    have a: "ring c ctop P2 B (r + 1) (ADVANCE c ctop P2 r st)"
      "vhgh (ADVANCE c ctop P2 r st) = max (vhgh st) (r + 1)"
      using ADVANCE_ring [OF 1(3) lt] by simp_all
    have eq: "skip_run c ctop P2 nlcp (r + 1) (ADVANCE c ctop P2 r st) = Some (r1, st1)"
      using 1(2) True lt by (subst (asm) skip_run.simps) simp
    have ih: "r + 1 \<le> r1 \<and> ring c ctop P2 B r1 st1 \<and> vhgh st1 = max (vhgh (ADVANCE c ctop P2 r st)) r1
       \<and> (\<forall>i. r + 1 \<le> i \<and> i < r1 \<longrightarrow> nlcp < e_lcp (c ! i))
       \<and> frame (ADVANCE c ctop P2 r st) st1"
      using lt True eq a(1) 1(4) by (intro 1(1)) simp_all
    have r1: "r + 1 \<le> r1"
      using ih by simp
    have "\<forall>i. r \<le> i \<and> i < r1 \<longrightarrow> nlcp < e_lcp (c ! i)"
    proof (intro allI impI)
      fix i
      assume i: "r \<le> i \<and> i < r1"
      show "nlcp < e_lcp (c ! i)"
      proof (cases "i = r")
        case True
        then show ?thesis
          using \<open>nlcp < e_lcp (centry c ctop r)\<close> lt by (simp add: centry_def)
      next
        case False
        then show ?thesis
          using ih i by simp
      qed
    qed
    moreover have "frame st st1"
      using frame_trans [OF frame_ADVANCE [of st c ctop P2 r]] ih by simp
    ultimately show ?thesis
      using ih a(2) r1 by (simp add: max_def)
  next
    case False
    then have "r1 = r" "st1 = st"
      using 1(2) rl by (subst (asm) skip_run.simps, simp)+
    then show ?thesis
      using 1(3) rv by (simp add: max_def)
  qed
qed

lemma zinv_mono: "zinv c ctop F pl r0 vl vh \<Longrightarrow> r0 \<le> r0' \<Longrightarrow> zinv c ctop F pl r0' vl vh"
  unfolding zinv_def
proof (elim disjE exE conjE)
  assume "vh \<le> r0" "r0 \<le> r0'"
  then show "vh \<le> r0' \<or>
     (\<exists>k0 w. k0 \<le> pl \<and> (\<forall>k\<in>{k0..pl}. w \<le> vl k) \<and> cnt_sum c ctop w vh < F
        \<and> (\<forall>i. r0' \<le> i \<and> i < vh \<longrightarrow> k0 \<le> e_lcp (c ! i)))"
    by simp
next
  fix k0 w
  assume a: "r0 \<le> r0'" "k0 \<le> pl" "\<forall>k\<in>{k0..pl}. w \<le> vl k" "cnt_sum c ctop w vh < F"
    "\<forall>i. r0 \<le> i \<and> i < vh \<longrightarrow> k0 \<le> e_lcp (c ! i)"
  have "\<forall>i. r0' \<le> i \<and> i < vh \<longrightarrow> k0 \<le> e_lcp (c ! i)"
    using a(1,5) by (meson le_trans)
  then show "vh \<le> r0' \<or>
     (\<exists>k0 w. k0 \<le> pl \<and> (\<forall>k\<in>{k0..pl}. w \<le> vl k) \<and> cnt_sum c ctop w vh < F
        \<and> (\<forall>i. r0' \<le> i \<and> i < vh \<longrightarrow> k0 \<le> e_lcp (c ! i)))"
    using a(2,3,4) by blast
qed

lemma zinv_max: "zinv c ctop F pl r0 vl vh \<Longrightarrow> x \<le> r0 \<Longrightarrow> zinv c ctop F pl r0 vl (max vh x)"
proof (cases "x \<le> vh")
  case True
  assume "zinv c ctop F pl r0 vl vh"
  then show ?thesis
    using True by (simp add: max_def)
next
  case False
  assume "x \<le> r0"
  then show ?thesis
    using False by (simp add: max_def zinv_def)
qed

lemma zinv_lower:
  assumes z: "zinv c ctop F pl r0 vl vh" and le: "pl' \<le> pl"
    and lc: "r0 < vh \<longrightarrow> e_lcp (c ! r0) \<le> pl'"
  shows "zinv c ctop F pl' r0 vl vh"
proof (cases "vh \<le> r0")
  case True
  then show ?thesis
    by (simp add: zinv_def)
next
  case False
  then obtain k0 w where a: "k0 \<le> pl" "\<forall>k\<in>{k0..pl}. w \<le> vl k" "cnt_sum c ctop w vh < F"
    "\<forall>i. r0 \<le> i \<and> i < vh \<longrightarrow> k0 \<le> e_lcp (c ! i)"
    using z unfolding zinv_def by blast
  have "k0 \<le> e_lcp (c ! r0)"
    using a(4) False by simp
  then have k: "k0 \<le> pl'"
    using lc False by simp
  have "\<forall>k\<in>{k0..pl'}. w \<le> vl k"
    using a(2) le by simp
  then show ?thesis
    unfolding zinv_def using k a(3,4) by blast
qed

lemma zinv_upd:
  assumes z: "zinv c ctop F pl r0 vl vh" and x: "vl pl \<le> x"
  shows "zinv c ctop F (pl + 1) r0 (vl(pl + 1 := x)) vh"
proof (cases "vh \<le> r0")
  case True
  then show ?thesis
    by (simp add: zinv_def)
next
  case False
  then obtain k0 w where a: "k0 \<le> pl" "\<forall>k\<in>{k0..pl}. w \<le> vl k" "cnt_sum c ctop w vh < F"
    "\<forall>i. r0 \<le> i \<and> i < vh \<longrightarrow> k0 \<le> e_lcp (c ! i)"
    using z unfolding zinv_def by blast
  have "w \<le> vl pl"
    using a(1,2) by simp
  then have wx: "w \<le> x"
    using x by simp
  have "\<forall>k\<in>{k0..pl + 1}. w \<le> (vl(pl + 1 := x)) k"
  proof
    fix k
    assume k: "k \<in> {k0..pl + 1}"
    show "w \<le> (vl(pl + 1 := x)) k"
    proof (cases "k = pl + 1")
      case True
      then show ?thesis
        using wx by simp
    next
      case False
      then have "k \<in> {k0..pl}"
        using k by simp
      then show ?thesis
        using a(2) False by simp
    qed
  qed
  moreover have "k0 \<le> pl + 1"
    using a(1) by simp
  ultimately show ?thesis
    unfolding zinv_def using a(3,4) by blast
qed

lemma zinv_look:
  assumes z: "zinv c ctop F pl r0 vl vh" and le: "r0 \<le> l'"
    and cn: "r0 < l' \<longrightarrow> cnt_sum c ctop (vl pl) l' < F"
    and lc: "\<forall>i. r0 \<le> i \<and> i < l' \<longrightarrow> pl \<le> e_lcp (c ! i)"
  shows "zinv c ctop F pl r0 vl (max vh l')"
proof (cases "l' \<le> vh")
  case True
  then show ?thesis
    using z by (simp add: max_def)
next
  case False
  then have m: "max vh l' = l'"
    by simp
  show ?thesis
  proof (cases "r0 < l'")
    case True
    have "\<forall>k\<in>{pl..pl}. vl pl \<le> vl k"
      by simp
    then show ?thesis
      unfolding zinv_def m using cn lc True by blast
  next
    case nlt: False
    then show ?thesis
      by (simp add: zinv_def m)
  qed
qed

lemma zinv_bound:
  assumes z: "zinv c ctop F pl r0 vl vh" and e: "r0 \<le> e" "e \<le> vh" "vl pl \<le> e"
    and T: "cnt_sum c ctop (vl pl) e < F"
  shows "cnt_sum c ctop (vl pl) vh < F"
proof (cases "vh \<le> r0")
  case True
  then have "vh = e"
    using e by simp
  then show ?thesis
    using T by simp
next
  case False
  then obtain k0 w where a: "k0 \<le> pl" "\<forall>k\<in>{k0..pl}. w \<le> vl k" "cnt_sum c ctop w vh < F"
    using z unfolding zinv_def by blast
  have "w \<le> vl pl"
    using a(1,2) by simp
  moreover have "vl pl \<le> vh"
    using e by simp
  ultimately have "cnt_sum c ctop (vl pl) vh \<le> cnt_sum c ctop w vh"
    by (rule cnt_sum_antimono)
  then show ?thesis
    using a(3) by simp
qed

lemma ring_same:
  "vhgh b = vhgh a \<Longrightarrow> cdx b = cdx a \<Longrightarrow> pdx b = pdx a \<Longrightarrow> p2idx b = p2idx a
     \<Longrightarrow> post b = post a \<Longrightarrow> ring c ctop P2 B l a \<Longrightarrow> ring c ctop P2 B l b"
  by (simp add: ring_def loaded_def)

lemma scan_less_ring:
  assumes "scan_less c ctop P2 h m cc pl r st = Some x"
    and "ring c ctop P2 B r st" and "r < length c" and "12 \<le> pl" and "e_lcp ctop = 11"
  shows "case x of
           Inl (r1, st1) \<Rightarrow> r < r1 \<and> ring c ctop P2 B r1 st1 \<and> vhgh st1 = max (vhgh st) r1
               \<and> e_lcp (centry c ctop r1) < pl \<and> frame st st1
         | Inr (r1, st1, d) \<Rightarrow> r \<le> r1 \<and> r1 < length c \<and> ring c ctop P2 B r1 st1
               \<and> vhgh st1 = max (vhgh st) r1 \<and> frame st st1"
  using assms
proof (induction c ctop P2 h m cc pl r st rule: scan_less.induct)
  case (1 c ctop P2 h m cc pl r st)
  have rv: "r \<le> vhgh st"
    using 1(3) by (simp add: ring_def)
  show ?case
  proof (cases "(e_suf (centry c ctop r) ! h) AND m < cc")
    case False
    then have "x = Inr (r, st, (e_suf (centry c ctop r) ! h) AND m)"
      using 1(2,4) by (subst (asm) scan_less.simps) simp
    then show ?thesis
      using 1(3,4) rv by (simp add: max_def)
  next
    case True
    have a: "ring c ctop P2 B (r + 1) (ADVANCE c ctop P2 r st)"
      "vhgh (ADVANCE c ctop P2 r st) = max (vhgh st) (r + 1)"
      using ADVANCE_ring [OF 1(3) 1(4)] by simp_all
    have fa: "frame st (ADVANCE c ctop P2 r st)"
      by (rule frame_ADVANCE)
    show ?thesis
    proof (cases "e_lcp (centry c ctop (r + 1)) < pl")
      case lt: True
      then have "x = Inl (r + 1, ADVANCE c ctop P2 r st)"
        using 1(2,4) True by (subst (asm) scan_less.simps) simp
      then show ?thesis
        using a lt fa by simp
    next
      case ge: False
      have r1: "r + 1 < length c"
      proof (rule ccontr)
        assume "\<not> r + 1 < length c"
        then have "centry c ctop (r + 1) = ctop"
          by (simp add: centry_def)
        then show False
          using ge 1(5,6) by simp
      qed
      have eq: "scan_less c ctop P2 h m cc pl (r + 1) (ADVANCE c ctop P2 r st) = Some x"
        using 1(2,4) True ge r1 by (subst (asm) scan_less.simps) simp
      have ih: "case x of
           Inl (r1, st1) \<Rightarrow> r + 1 < r1 \<and> ring c ctop P2 B r1 st1
               \<and> vhgh st1 = max (vhgh (ADVANCE c ctop P2 r st)) r1
               \<and> e_lcp (centry c ctop r1) < pl \<and> frame (ADVANCE c ctop P2 r st) st1
         | Inr (r1, st1, d) \<Rightarrow> r + 1 \<le> r1 \<and> r1 < length c \<and> ring c ctop P2 B r1 st1
               \<and> vhgh st1 = max (vhgh (ADVANCE c ctop P2 r st)) r1
               \<and> frame (ADVANCE c ctop P2 r st) st1"
        using 1(4) True ge r1 eq a(1) 1(5) 1(6) by (intro 1(1)) simp_all
      show ?thesis
      proof (cases x)
        case (Inl p)
        obtain r1 st1 where p: "p = (r1, st1)" by (cases p)
        have "frame st st1"
          using frame_trans [OF fa] ih Inl p by simp
        then show ?thesis
          using ih Inl p a(2) by (simp add: max_def)
      next
        case (Inr q)
        obtain r1 st1 d where q: "q = (r1, st1, d)" by (cases q)
        have "frame st st1"
          using frame_trans [OF fa] ih Inr q by simp
        then show ?thesis
          using ih Inr q a(2) by (simp add: max_def)
      qed
    qed
  qed
qed

lemma extend_ring:
  assumes "extend K c ctop P2 suf1 pl r st = Some st2"
    and "ring c ctop P2 B r st" and "r < length c" and "12 \<le> pl" and "e_lcp ctop = 11"
    and "\<not> eorun st" and "vlcp st pl \<le> r"
    and "zinv c ctop F pl (r + 1) (vlcp st) (vhgh st)"
  shows "ring c ctop P2 B (rend st2) st2 \<and> merge_z c ctop F st2"
  using assms
proof (induction K c ctop P2 suf1 pl r st rule: extend.induct)
  case (1 K c ctop P2 suf1 pl r st)
  define cc where "cc = (e_suf suf1 ! (cbyte ! pl)) AND (mbyte ! pl)"
  show ?case
  proof (cases "pl < K")
    case False
    let ?a = "ADVANCE c ctop P2 r st"
    have st2: "st2 = ?a\<lparr>plen := pl, rend := r + 1, eorun := True\<rparr>"
      using 1(2,4) False by (subst (asm) extend.simps) simp
    have a: "ring c ctop P2 B (r + 1) ?a" "vhgh ?a = max (vhgh st) (r + 1)"
      using ADVANCE_ring [OF 1(3) 1(4)] by simp_all
    have f: "frame st ?a"
      by (rule frame_ADVANCE)
    have "ring c ctop P2 B (rend st2) st2"
      using ring_same [of st2 ?a c ctop P2 B "r + 1"] a(1) by (simp add: st2)
    moreover have "zinv c ctop F pl (r + 1) (vlcp st) (max (vhgh st) (r + 1))"
      using zinv_max [OF 1(9), of "r + 1"] by simp
    then have "merge_z c ctop F st2"
      using f a(2) by (simp add: merge_z_def znext_def st2 frame_def)
    ultimately show ?thesis
      by simp
  next
    case True
    obtain x where x: "scan_less c ctop P2 (cbyte ! pl) (mbyte ! pl) cc pl r st = Some x"
      using scan_less_total [OF 1(4) 1(5) 1(6), of P2 "cbyte ! pl" "mbyte ! pl" cc st]
      by (elim exE conjE)
    have xr: "case x of
           Inl (r1, st1) \<Rightarrow> r < r1 \<and> ring c ctop P2 B r1 st1 \<and> vhgh st1 = max (vhgh st) r1
               \<and> e_lcp (centry c ctop r1) < pl \<and> frame st st1
         | Inr (r1, st1, d) \<Rightarrow> r \<le> r1 \<and> r1 < length c \<and> ring c ctop P2 B r1 st1
               \<and> vhgh st1 = max (vhgh st) r1 \<and> frame st st1"
      using scan_less_ring [OF x 1(3) 1(4) 1(5) 1(6)] .
    show ?thesis
    proof (cases x)
      case (Inl a)
      obtain r1 st1 where a: "a = (r1, st1)" by (cases a)
      have p: "r < r1" "ring c ctop P2 B r1 st1" "vhgh st1 = max (vhgh st) r1" "frame st st1"
        using xr Inl a by simp_all
      have st2: "st2 = st1\<lparr>plen := pl, rend := r1, eorun := True\<rparr>"
        using 1(2) True x Inl a by (subst (asm) extend.simps) (simp add: cc_def [symmetric])
      have "ring c ctop P2 B (rend st2) st2"
        using ring_same [of st2 st1 c ctop P2 B r1] p(2) by (simp add: st2)
      moreover have "zinv c ctop F pl r1 (vlcp st) (max (vhgh st) r1)"
        using zinv_max [OF zinv_mono [OF 1(9), of r1], of r1] p(1) by simp
      then have "merge_z c ctop F st2"
        using p(3,4) by (simp add: merge_z_def znext_def st2 frame_def)
      ultimately show ?thesis
        by simp
    next
      case (Inr b)
      obtain r1 st1 d where b: "b = (r1, st1, d)" by (cases b)
      have p: "r \<le> r1" "r1 < length c" "ring c ctop P2 B r1 st1"
        "vhgh st1 = max (vhgh st) r1" "frame st st1"
        using xr Inr b by simp_all
      have z1: "zinv c ctop F pl (r1 + 1) (vlcp st) (max (vhgh st) r1)"
        using zinv_max [OF zinv_mono [OF 1(9), of "r1 + 1"], of r1] p(1) by simp
      show ?thesis
      proof (cases "d > cc")
        case gt: True
        have st2: "st2 = st1\<lparr>plen := pl, rend := r1\<rparr>"
          using 1(2) True x Inr b gt by (subst (asm) extend.simps) (simp add: cc_def [symmetric])
        have "ring c ctop P2 B (rend st2) st2"
          using ring_same [of st2 st1 c ctop P2 B r1] p(3) by (simp add: st2)
        moreover have "merge_z c ctop F st2"
          using z1 p(4,5) 1(7) by (simp add: merge_z_def znext_def st2 frame_def)
        ultimately show ?thesis
          by simp
      next
        case le: False
        let ?st = "st1\<lparr>vlcp := (vlcp st1)(pl + 1 := r1)\<rparr>"
        have eq: "extend K c ctop P2 suf1 (pl + 1) r1 ?st = Some st2"
          using 1(2) True x Inr b le by (subst (asm) extend.simps) (simp add: cc_def [symmetric])
        have r: "ring c ctop P2 B r1 ?st"
          using ring_same [of ?st st1 c ctop P2 B r1] p(3) by simp
        have ne: "\<not> eorun ?st"
          using 1(7) p(5) by (simp add: frame_def)
        have v: "vlcp ?st (pl + 1) \<le> r1"
          by simp
        have "vlcp st pl \<le> r1"
          using 1(8) p(1) by simp
        from zinv_upd [OF z1 this]
        have z: "zinv c ctop F (pl + 1) (r1 + 1) (vlcp ?st) (vhgh ?st)"
          using p(4,5) by (simp add: frame_def)
        show ?thesis
          using True x Inr b le eq r p(2) 1(5) 1(6) ne v z
          by (intro 1(1)) (simp_all add: cc_def fun_upd_def)
      qed
    qed
  qed
qed

lemma adjust_ring:
  assumes ad: "adjust c ctop P2 suf1 st = Some (g, st1)"
    and inv: "merge_inv c ctop F st" and rg: "ring c ctop P2 B (rend st) st"
    and z: "merge_z c ctop F st" and n12: "12 \<le> e_lcp suf1" and top: "e_lcp ctop = 11"
  shows "ring c ctop P2 B (rend st1) st1 \<and> merge_z c ctop F st1"
proof -
  have i: "12 \<le> plen st" "rend st \<le> length c" "eorun st \<or> rend st < length c"
    using inv by (simp_all add: merge_inv_def minv_def)
  consider (ge) "e_lcp suf1 \<ge> plen st" | (lt) "e_lcp suf1 < plen st"
    by linarith
  then show ?thesis
  proof cases
    case ge
    then have "st1 = st"
      using ad by (auto simp: adjust_def split: if_splits)
    then show ?thesis
      using rg z by simp
  next
    case lt
    define st0 where "st0 = (if \<not> eorun st then ADVANCE c ctop P2 (rend st) st else st)"
    have f0: "frame st st0"
      by (simp add: st0_def frame_ADVANCE)
    have r0: "ring c ctop P2 B (znext st) st0" "vhgh st0 = max (vhgh st) (znext st)"
    proof -
      show "ring c ctop P2 B (znext st) st0"
      proof (cases "eorun st")
        case True
        then show ?thesis
          using rg by (simp add: st0_def znext_def)
      next
        case False
        then have "rend st < length c"
          using i(3) by simp
        from ADVANCE_ring [OF rg this] False show ?thesis
          by (simp add: st0_def znext_def)
      qed
      show "vhgh st0 = max (vhgh st) (znext st)"
      proof (cases "eorun st")
        case True
        then show ?thesis
          using rg by (simp add: st0_def znext_def ring_def max_def)
      next
        case False
        then have "rend st < length c"
          using i(3) by simp
        from ADVANCE_ring [OF rg this] False show ?thesis
          by (simp add: st0_def znext_def)
      qed
    qed
    have zl: "znext st \<le> length c"
      using i(2,3) by (auto simp: znext_def)
    have "\<exists>r1 s1. skip_run c ctop P2 (e_lcp suf1) (znext st) st0 = Some (r1, s1)
        \<and> znext st \<le> r1 \<and> r1 \<le> length c \<and> e_lcp (centry c ctop r1) \<le> e_lcp suf1
        \<and> frame st0 s1"
      using zl n12 top by (intro skip_run_total) simp_all
    then obtain r1 s1 where s: "skip_run c ctop P2 (e_lcp suf1) (znext st) st0 = Some (r1, s1)"
      "znext st \<le> r1" "r1 \<le> length c" "e_lcp (centry c ctop r1) \<le> e_lcp suf1"
      by (elim exE conjE)
    have tn: "e_lcp ctop \<le> e_lcp suf1"
      using n12 top by simp
    have sr: "ring c ctop P2 B r1 s1" "vhgh s1 = max (vhgh st0) r1" "frame st0 s1"
      using skip_run_ring [OF s(1) r0(1) tn] by simp_all
    have f1: "frame st s1"
      using frame_trans [OF f0 sr(3)] .
    have vh: "vhgh s1 = max (vhgh st) r1"
      using sr(2) r0(2) s(2) by (simp add: max_def)
    have sk: "(if \<not> eorun st
               then skip_run c ctop P2 (e_lcp suf1) (rend st + 1) (ADVANCE c ctop P2 (rend st) st)
               else skip_run c ctop P2 (e_lcp suf1) (rend st) st) = Some (r1, s1)"
      using s(1) by (cases "eorun st") (simp_all add: st0_def znext_def)
    have z0: "zinv c ctop F (plen st) (znext st) (vlcp st) (vhgh st)"
      using z by (simp add: merge_z_def)
    have z1: "zinv c ctop F (plen st) r1 (vlcp st) (vhgh s1)"
      using zinv_max [OF zinv_mono [OF z0 s(2)], of r1] vh by simp
    have lc: "r1 < vhgh s1 \<longrightarrow> e_lcp (c ! r1) \<le> e_lcp suf1"
    proof
      assume "r1 < vhgh s1"
      then have "r1 < length c"
        using sr(1) by (simp add: ring_def)
      then show "e_lcp (c ! r1) \<le> e_lcp suf1"
        using s(4) by (simp add: centry_def)
    qed
    have z2: "zinv c ctop F (e_lcp suf1) r1 (vlcp st) (vhgh s1)"
      using zinv_lower [OF z1 _ lc] lt by simp
    show ?thesis
    proof (cases "e_lcp (centry c ctop r1) < e_lcp suf1")
      case True
      let ?st = "s1\<lparr>rend := r1, eorun := True, plen := e_lcp suf1\<rparr>"
      have st1: "st1 = ?st"
        using ad lt True sk by (simp add: adjust_def)
      have "ring c ctop P2 B (rend ?st) ?st"
        using ring_same [of ?st s1 c ctop P2 B r1] sr(1) by simp
      moreover have "merge_z c ctop F ?st"
        using z2 f1 by (simp add: merge_z_def znext_def frame_def)
      ultimately show ?thesis
        by (simp add: st1)
    next
      case False
      then have e: "e_lcp (centry c ctop r1) = e_lcp suf1"
        using s(4) by simp
      let ?st = "s1\<lparr>rend := r1, plen := e_lcp (centry c ctop r1), eorun := False\<rparr>"
      have st1: "st1 = ?st"
        using ad lt False sk by (simp add: adjust_def)
      have "ring c ctop P2 B (rend ?st) ?st"
        using ring_same [of ?st s1 c ctop P2 B r1] sr(1) by simp
      moreover have "zinv c ctop F (e_lcp suf1) (r1 + 1) (vlcp st) (vhgh s1)"
        using zinv_mono [OF z2, of "r1 + 1"] by simp
      then have "merge_z c ctop F ?st"
        using f1 e by (simp add: merge_z_def znext_def frame_def)
      ultimately show ?thesis
        by (simp add: st1)
    qed
  qed
qed

lemma look_ahead_ring:
  assumes "look_ahead c ctop P2 F pl l freq st = Some x"
    and "ring c ctop P2 B l st" and "12 \<le> pl" and "e_lcp ctop = 11"
  shows "\<exists>l' st1. (x = Inl st1 \<or> (\<exists>f. x = Inr (f, st1) \<and> l' = run_end c pl l))
           \<and> l \<le> l' \<and> ring c ctop P2 B l' st1 \<and> vhgh st1 = max (vhgh st) l'
           \<and> (\<forall>i. l \<le> i \<and> i < l' \<longrightarrow> pl \<le> e_lcp (c ! i))
           \<and> (l < l' \<longrightarrow> freq + cnt_sum c ctop l l' < F)"
  using assms
proof (induction c ctop P2 F pl l freq st rule: look_ahead.induct)
  case (1 c ctop P2 F pl l freq st)
  have lv: "l \<le> vhgh st" "vhgh st \<le> length c"
    using 1(3) by (simp_all add: ring_def)
  then have ll: "l \<le> length c"
    by simp
  show ?case
  proof (cases "e_lcp (centry c ctop l) \<ge> pl")
    case False
    have "run_end c pl l = l"
      using False by (subst run_end.simps) (auto simp: centry_def)
    moreover have "x = Inr (freq, st)"
      using 1(2) False ll by (subst (asm) look_ahead.simps) simp
    ultimately show ?thesis
      using 1(3) lv by (intro exI [of _ l] exI [of _ st]) (simp add: max_def)
  next
    case True
    have lt: "l < length c"
      using centry_top [OF 1(5) ll] True 1(4) by simp
    have lcl: "pl \<le> e_lcp (c ! l)"
      using True lt by (simp add: centry_def)
    show ?thesis
    proof (cases "freq + e_cnt (centry c ctop l) \<ge> F")
      case ge: True
      then have "x = Inl st"
        using 1(2) True ll by (subst (asm) look_ahead.simps) simp
      then show ?thesis
        using 1(3) lv by (intro exI [of _ l] exI [of _ st]) (simp add: max_def)
    next
      case nge: False
      let ?a = "ADVANCE c ctop P2 l st"
      have a: "ring c ctop P2 B (l + 1) ?a" "vhgh ?a = max (vhgh st) (l + 1)"
        using ADVANCE_ring [OF 1(3) lt] by simp_all
      have eq: "look_ahead c ctop P2 F pl (l + 1) (freq + e_cnt (centry c ctop l)) ?a = Some x"
        using 1(2) True nge ll by (subst (asm) look_ahead.simps) simp
      have "\<exists>l' st1. (x = Inl st1 \<or> (\<exists>f. x = Inr (f, st1) \<and> l' = run_end c pl (l + 1)))
           \<and> l + 1 \<le> l' \<and> ring c ctop P2 B l' st1 \<and> vhgh st1 = max (vhgh ?a) l'
           \<and> (\<forall>i. l + 1 \<le> i \<and> i < l' \<longrightarrow> pl \<le> e_lcp (c ! i))
           \<and> (l + 1 < l' \<longrightarrow> freq + e_cnt (centry c ctop l) + cnt_sum c ctop (l + 1) l' < F)"
        using True nge ll eq a(1) 1(4) 1(5) by (intro 1(1)) simp_all
      then obtain l' st1 where h:
        "x = Inl st1 \<or> (\<exists>f. x = Inr (f, st1) \<and> l' = run_end c pl (l + 1))"
        "l + 1 \<le> l'" "ring c ctop P2 B l' st1" "vhgh st1 = max (vhgh ?a) l'"
        "\<forall>i. l + 1 \<le> i \<and> i < l' \<longrightarrow> pl \<le> e_lcp (c ! i)"
        "l + 1 < l' \<longrightarrow> freq + e_cnt (centry c ctop l) + cnt_sum c ctop (l + 1) l' < F"
        by (elim exE conjE)
      have re: "run_end c pl l = run_end c pl (l + 1)"
        using lcl lt by (subst run_end.simps) simp
      have sp: "cnt_sum c ctop l l' = e_cnt (centry c ctop l) + cnt_sum c ctop (l + 1) l'"
        using cnt_sum_split [of l "l + 1" l' c ctop] h(2) by (simp add: cnt_sum_one)
      have A: "x = Inl st1 \<or> (\<exists>f. x = Inr (f, st1) \<and> l' = run_end c pl l)"
        using h(1) re by simp
      have B: "vhgh st1 = max (vhgh st) l'"
        using h(2,4) a(2) by (simp add: max_def)
      have C: "\<forall>i. l \<le> i \<and> i < l' \<longrightarrow> pl \<le> e_lcp (c ! i)"
      proof (intro allI impI)
        fix i
        assume i: "l \<le> i \<and> i < l'"
        show "pl \<le> e_lcp (c ! i)"
        proof (cases "i = l")
          case True
          then show ?thesis
            using lcl by simp
        next
          case False
          then show ?thesis
            using h(5) i by simp
        qed
      qed
      have D: "l < l' \<longrightarrow> freq + cnt_sum c ctop l l' < F"
      proof (cases "l + 1 < l'")
        case True
        then show ?thesis
          using h(6) sp by simp
      next
        case False
        then have "l' = l + 1"
          using h(2) by simp
        then show ?thesis
          using nge by (simp add: cnt_sum_one)
      qed
      have E: "l \<le> l'"
        using h(2) by simp
      show ?thesis
        using A B C D E h(3) by blast
    qed
  qed
qed

lemma ring_post:
  "vhgh b = vhgh a \<Longrightarrow> cdx b = cdx a \<Longrightarrow> pdx b = pdx a \<Longrightarrow> p2idx b = p2idx a
     \<Longrightarrow> \<forall>i<POST_BUF_LEN. post b i = post a i
     \<Longrightarrow> ring c ctop P2 B l a \<Longrightarrow> ring c ctop P2 B l b"
  by (simp add: ring_def loaded_def POST_BUF_LEN_def)

lemma merge_z_same:
  "plen b = plen a \<Longrightarrow> rend b = rend a \<Longrightarrow> eorun b = eorun a \<Longrightarrow> vlcp b = vlcp a
     \<Longrightarrow> vhgh b = vhgh a \<Longrightarrow> merge_z c ctop F a \<Longrightarrow> merge_z c ctop F b"
  by (cases "eorun a") (simp_all add: merge_z_def znext_def)

lemma seeds_of_cong:
  assumes "\<forall>k<freq. pst (bb + k) = pst' (bb' + k)"
  shows "seeds_of L Sel P1 suf1 pl p1 freq pst bb = seeds_of L Sel P1 suf1 pl p1 freq pst' bb'"
proof -
  have "seed_recs L Sel pl pst bb freq a = seed_recs L Sel pl pst' bb' freq a" for a
    using assms by (simp add: seed_recs_def)
  then show ?thesis
    by (simp add: seeds_of_def)
qed

lemma wrap_index: "POST_BUF_LEN \<le> i \<Longrightarrow> i < 2 * POST_BUF_LEN \<Longrightarrow> i mod POST_BUF_LEN = i - POST_BUF_LEN"
  by (simp add: le_mod_geq)

lemma emit_ring:
  assumes lc: "lcs \<le> POST_BUF_LEN" and fr: "freq \<le> POST_BUF_LEN" and cd: "cdx st < POST_BUF_LEN"
  shows "\<exists>st' pst bb. emit L Sel P1 suf1 lcs freq st = Some st'
     \<and> plen st' = plen st \<and> rend st' = rend st \<and> eorun st' = eorun st \<and> vlcp st' = vlcp st
     \<and> vlow st' = vlow st \<and> vhgh st' = vhgh st \<and> cdx st' = cdx st \<and> pdx st' = pdx st
     \<and> p2idx st' = p2idx st \<and> (\<forall>i<POST_BUF_LEN. post st' i = post st i)
     \<and> p1idx st' = p1idx st + e_cnt suf1
     \<and> emitted st' = emitted st @ seeds_of L Sel P1 suf1 (plen st) (p1idx st) freq pst bb
     \<and> (\<forall>k<freq. pst (bb + k)
            = post st ((cdx st + (POST_BUF_LEN - lcs) + k) mod POST_BUF_LEN))
     \<and> nhits st' = nhits st + e_cnt suf1 * freq"
proof -
  define bb where "bb = (if cdx st \<ge> lcs then cdx st - lcs else (cdx st + POST_BUF_LEN) - lcs)"
  define pst where "pst = (if bb + freq > POST_BUF_LEN
                    then (\<lambda>i. if POST_BUF_LEN \<le> i
                                  \<and> i < POST_BUF_LEN + ((bb + freq) AND POST_BUF_MASK)
                               then post st (i - POST_BUF_LEN) else post st i)
                    else post st)"
  define st' where "st' = st\<lparr>post := pst,
                     nhits := nhits st + e_cnt suf1 * freq,
                     g1len := g1len st + e_cnt suf1,
                     tseed := tseed st + e_cnt suf1 * freq * plen st,
                     emitted := emitted st @ seeds_of L Sel P1 suf1 (plen st) (p1idx st) freq pst bb,
                     p1idx := p1idx st + e_cnt suf1\<rparr>"
  have ok: "\<not> cdx st + POST_BUF_LEN < lcs"
    using lc by simp
  have e: "emit L Sel P1 suf1 lcs freq st = Some st'"
    using ok
    by (simp add: emit_def Let_def seeds_of_def st'_def pst_def [symmetric] bb_def [symmetric])
  have bl: "bb < POST_BUF_LEN"
    using cd by (auto simp: bb_def)
  have bm: "bb = (cdx st + (POST_BUF_LEN - lcs)) mod POST_BUF_LEN"
  proof (cases "cdx st \<ge> lcs")
    case True
    then have "cdx st + (POST_BUF_LEN - lcs) = (cdx st - lcs) + POST_BUF_LEN"
      using lc by simp
    then have "(cdx st + (POST_BUF_LEN - lcs)) mod POST_BUF_LEN = (cdx st - lcs) mod POST_BUF_LEN"
      by simp
    then show ?thesis
      using True cd by (simp add: bb_def)
  next
    case False
    then have "cdx st + (POST_BUF_LEN - lcs) < POST_BUF_LEN"
      using lc by simp
    then show ?thesis
      using False lc by (simp add: bb_def)
  qed
  have low: "\<forall>i<POST_BUF_LEN. pst i = post st i"
    by (simp add: pst_def)
  have slot: "pst (bb + k) = post st ((bb + k) mod POST_BUF_LEN)" if "k < freq" for k
  proof (cases "bb + freq > POST_BUF_LEN")
    case True
    have two: "bb + freq < 2 * POST_BUF_LEN"
      using bl fr by simp
    have m: "(bb + freq) AND POST_BUF_MASK = bb + freq - POST_BUF_LEN"
      using wrap_index [of "bb + freq"] True two by (simp add: and_buf_mask)
    show ?thesis
    proof (cases "POST_BUF_LEN \<le> bb + k")
      case ge: True
      have "bb + k < 2 * POST_BUF_LEN"
        using two that by simp
      then have "(bb + k) mod POST_BUF_LEN = bb + k - POST_BUF_LEN"
        using wrap_index [OF ge] by simp
      moreover have "bb + k < POST_BUF_LEN + (bb + freq - POST_BUF_LEN)"
        using that True by simp
      ultimately show ?thesis
        using True ge by (simp add: pst_def m)
    next
      case lt: False
      then show ?thesis
        using True by (simp add: pst_def)
    qed
  next
    case False
    then have "bb + k < POST_BUF_LEN"
      using that by simp
    then show ?thesis
      using False by (simp add: pst_def)
  qed
  have idx: "(bb + k) mod POST_BUF_LEN = (cdx st + (POST_BUF_LEN - lcs) + k) mod POST_BUF_LEN" for k
    unfolding bm by (rule mod_add_left_eq)
  have sl: "\<forall>k<freq. pst (bb + k)
            = post st ((cdx st + (POST_BUF_LEN - lcs) + k) mod POST_BUF_LEN)"
    using slot idx by simp
  have "plen st' = plen st" "rend st' = rend st" "eorun st' = eorun st"
    "vlcp st' = vlcp st" "vlow st' = vlow st" "vhgh st' = vhgh st" "cdx st' = cdx st"
    "pdx st' = pdx st" "p2idx st' = p2idx st" "\<forall>i<POST_BUF_LEN. post st' i = post st i"
    "p1idx st' = p1idx st + e_cnt suf1"
    "emitted st' = emitted st @ seeds_of L Sel P1 suf1 (plen st) (p1idx st) freq pst bb"
    "nhits st' = nhits st + e_cnt suf1 * freq"
    using low by (simp_all add: st'_def)
  then show ?thesis
    using e sl by blast
qed

lemma cnt_sum_from_zero: "v \<le> e \<Longrightarrow> cnt_sum c ctop 0 e = cnt_sum c ctop 0 v + cnt_sum c ctop v e"
  by (rule cnt_sum_split) simp_all

lemma ring_slot:
  assumes rg: "ring c ctop P2 B r st1" and v: "v \<le> r" and lcs: "lcs = cnt_sum c ctop v r"
    and lc: "lcs \<le> POST_BUF_LEN" and e: "v \<le> e" "e \<le> vhgh st1"
    and k: "k < cnt_sum c ctop v e" and w: "cnt_sum c ctop v (vhgh st1) \<le> POST_BUF_LEN"
  shows "post st1 ((cdx st1 + (POST_BUF_LEN - lcs) + k) mod POST_BUF_LEN)
           = P2 (B + (cnt_sum c ctop 0 v + k))"
proof -
  define a where "a = cnt_sum c ctop 0 v"
  have i: "cdx st1 = cnt_sum c ctop 0 r mod POST_BUF_LEN"
    "loaded P2 B (cnt_sum c ctop 0 (vhgh st1)) st1"
    using rg by (simp_all add: ring_def)
  have Nr: "cnt_sum c ctop 0 r = a + lcs"
    using cnt_sum_from_zero [OF v] by (simp add: a_def lcs)
  have "(cdx st1 + (POST_BUF_LEN - lcs) + k) mod POST_BUF_LEN
      = ((a + lcs) mod POST_BUF_LEN + ((POST_BUF_LEN - lcs) + k)) mod POST_BUF_LEN"
    by (simp add: i(1) Nr add.assoc)
  also have "\<dots> = ((a + lcs) + ((POST_BUF_LEN - lcs) + k)) mod POST_BUF_LEN"
    by (rule mod_add_left_eq)
  also have "(a + lcs) + ((POST_BUF_LEN - lcs) + k) = (a + k) + POST_BUF_LEN"
    using lc by simp
  also have "((a + k) + POST_BUF_LEN) mod POST_BUF_LEN = (a + k) mod POST_BUF_LEN"
    by simp
  finally have idx: "(cdx st1 + (POST_BUF_LEN - lcs) + k) mod POST_BUF_LEN
      = (a + k) mod POST_BUF_LEN" .
  have Ne: "cnt_sum c ctop 0 e = a + cnt_sum c ctop v e"
    using cnt_sum_from_zero [OF e(1)] by (simp add: a_def)
  have "cnt_sum c ctop 0 e \<le> cnt_sum c ctop 0 (vhgh st1)"
    using e(2) by (intro cnt_sum_mono) simp_all
  then have lt: "a + k < cnt_sum c ctop 0 (vhgh st1)"
    using Ne k by simp
  have "v \<le> vhgh st1"
    using e by simp
  then have "cnt_sum c ctop 0 (vhgh st1) = a + cnt_sum c ctop v (vhgh st1)"
    using cnt_sum_from_zero [of v "vhgh st1"] by (simp add: a_def)
  then have ge: "cnt_sum c ctop 0 (vhgh st1) \<le> (a + k) + POST_BUF_LEN"
    using w by simp
  have "post st1 ((a + k) mod POST_BUF_LEN) = P2 (B + (a + k))"
    using i(2) lt ge unfolding loaded_def by blast
  then show ?thesis
    by (simp add: idx a_def)
qed

lemma pairs_spec:
  assumes inv: "merge_inv c ctop F st" and top: "e_lcp ctop = 11" and FB: "F \<le> POST_BUF_LEN"
    and rg: "ring c ctop P2 B (rend st) st" and z: "merge_z c ctop F st"
  shows "\<exists>st'. pairs F L Sel c ctop P1 P2 suf1 st = Some st'
           \<and> entry_post F L Sel c ctop P1 P2 B suf1 st st'"
proof -
  define vcp where "vcp = vlcp st (plen st)"
  define T where "T = range_total c ctop st"
  have i: "12 \<le> plen st" "rend st \<le> length c" "eorun st \<or> rend st < length c"
    "\<forall>k\<in>{12..plen st}. vlcp st k \<le> rend st" "low_ok c ctop F (vlow st) (rend st)"
    "eorun st \<longrightarrow> (\<forall>k\<in>{12..plen st}. vlcp st k < rend st)"
    using inv by (simp_all add: merge_inv_def minv_def)
  have vr: "vcp \<le> rend st"
    using i(1,4) by (simp add: vcp_def)
  have zre: "znext st \<le> range_end c st"
    using run_end_ge [of "rend st + 1" c "plen st"] by (simp add: range_end_def znext_def)
  have re: "rend st \<le> range_end c st"
    using run_end_ge [of "rend st + 1" c "plen st"] by (simp add: range_end_def)
  have Tsplit: "T = cnt_sum c ctop vcp (rend st) + cnt_sum c ctop (rend st) (range_end c st)"
    using cnt_sum_split [OF vr re] by (simp add: T_def range_total_def vcp_def)
  have Tdef: "T = cnt_sum c ctop vcp (range_end c st)"
    by (simp add: T_def range_total_def vcp_def)
  have skip: "entry_post F L Sel c ctop P1 P2 B suf1 st (skip_entry suf1 (st1\<lparr>vlow := lo\<rparr>))"
    if "F \<le> T" "frame st st1" "low_ok c ctop F lo (rend st)"
      "ring c ctop P2 B (rend st) st1" "merge_z c ctop F st1" for st1 lo
  proof -
    note h = that
    let ?s = "skip_entry suf1 (st1\<lparr>vlow := lo\<rparr>)"
    have f: "plen ?s = plen st" "rend ?s = rend st" "eorun ?s = eorun st" "vlcp ?s = vlcp st"
      "emitted ?s = emitted st" "nhits ?s = nhits st" "p1idx ?s = p1idx st + e_cnt suf1"
      "vlow ?s = lo"
      using h(2) by (simp_all add: skip_entry_def frame_def)
    have g: "plen ?s = plen st1" "rend ?s = rend st1" "eorun ?s = eorun st1"
      "vlcp ?s = vlcp st1" "vhgh ?s = vhgh st1" "cdx ?s = cdx st1" "pdx ?s = pdx st1"
      "p2idx ?s = p2idx st1" "post ?s = post st1"
      by (simp_all add: skip_entry_def)
    have "range_total c ctop ?s = T"
      using range_same [OF f(1-4)] by (simp add: T_def)
    moreover have "merge_inv c ctop F ?s"
      using i h(3) f by (simp add: merge_inv_def minv_def)
    moreover have "ring c ctop P2 B (rend ?s) ?s"
      using ring_same [OF g(5-9) h(4)] f(2) by simp
    moreover have "merge_z c ctop F ?s"
      using merge_z_same [OF g(1-5) h(5)] .
    ultimately show ?thesis
      using h(1) f by (simp add: entry_post_def)
  qed
  have emitc: "\<exists>st'. emit L Sel P1 suf1 lcs T st1 = Some st'
      \<and> entry_post F L Sel c ctop P1 P2 B suf1 st st'"
    if "lcs = cnt_sum c ctop vcp (rend st)" "T < F \<or> T = 0" "frame st st1"
      "ring c ctop P2 B (rend st) st1" "merge_z c ctop F st1"
      "range_end c st \<le> vhgh st1" for st1 lcs
  proof -
    note h = that
    have fr: "plen st1 = plen st" "rend st1 = rend st" "eorun st1 = eorun st"
      "vlcp st1 = vlcp st" "vlow st1 = vlow st" "p1idx st1 = p1idx st"
      "emitted st1 = emitted st" "nhits st1 = nhits st"
      using h(3) by (simp_all add: frame_def)
    have TL: "T \<le> POST_BUF_LEN"
      using h(2) FB by auto
    have "lcs \<le> T"
      using Tsplit h(1) by simp
    then have lL: "lcs \<le> POST_BUF_LEN"
      using TL by simp
    have cL: "cdx st1 < POST_BUF_LEN"
      using h(4) by (simp add: ring_def POST_BUF_LEN_def)
    obtain st' pst bb where e: "emit L Sel P1 suf1 lcs T st1 = Some st'"
      "plen st' = plen st1" "rend st' = rend st1" "eorun st' = eorun st1" "vlcp st' = vlcp st1"
      "vlow st' = vlow st1" "vhgh st' = vhgh st1" "cdx st' = cdx st1" "pdx st' = pdx st1"
      "p2idx st' = p2idx st1" "\<forall>i<POST_BUF_LEN. post st' i = post st1 i"
      "p1idx st' = p1idx st1 + e_cnt suf1"
      "emitted st' = emitted st1 @ seeds_of L Sel P1 suf1 (plen st1) (p1idx st1) T pst bb"
      "\<forall>k<T. pst (bb + k)
            = post st1 ((cdx st1 + (POST_BUF_LEN - lcs) + k) mod POST_BUF_LEN)"
      "nhits st' = nhits st1 + e_cnt suf1 * T"
      using emit_ring [OF lL TL cL, where L = L and Sel = Sel and ?P1.0 = P1 and ?suf1.0 = suf1]
      by (elim exE conjE)
    have rt: "range_total c ctop st' = T"
      using range_same [of st' st c ctop] e(2-5) fr(1-4) by (simp add: T_def)
    have mi: "merge_inv c ctop F st'"
      using inv_same [of st' st c ctop F] e(2-6) fr(1-5) inv by simp
    have rg': "ring c ctop P2 B (rend st') st'"
      using ring_post [OF e(7-11) h(4)] e(3) fr(2) by simp
    have mz: "merge_z c ctop F st'"
      using merge_z_same [OF e(2-5) e(7) h(5)] .
    have vv: "vlcp st' (plen st') = vcp"
      using e(2,5) fr(1,4) by (simp add: vcp_def)
    have sd: "seeds_of L Sel P1 suf1 (plen st1) (p1idx st1) T pst bb
        = seeds_of L Sel P1 suf1 (plen st1) (p1idx st1) T (\<lambda>j. P2 (B + j)) (cnt_sum c ctop 0 vcp)"
    proof (rule seeds_of_cong, intro allI impI)
      fix k
      assume k: "k < T"
      then have TF: "T < F"
        using h(2) by auto
      have zz: "znext st1 = znext st"
        unfolding znext_def fr(2,3) by (rule refl)
      have z1: "zinv c ctop F (plen st) (znext st) (vlcp st) (vhgh st1)"
        using h(5) unfolding merge_z_def zz fr(1) fr(4) .
      have ve: "vcp \<le> range_end c st"
        using vr re by simp
      have "cnt_sum c ctop (vlcp st (plen st)) (vhgh st1) < F"
        using zinv_bound [OF z1 zre h(6)] ve TF Tdef by (simp add: vcp_def)
      then have w: "cnt_sum c ctop vcp (vhgh st1) \<le> POST_BUF_LEN"
        using FB by (simp add: vcp_def)
      have kk: "k < cnt_sum c ctop vcp (range_end c st)"
        using k Tdef by simp
      have "post st1 ((cdx st1 + (POST_BUF_LEN - lcs) + k) mod POST_BUF_LEN)
           = P2 (B + (cnt_sum c ctop 0 vcp + k))"
        using ring_slot [OF h(4) vr h(1) lL ve h(6) kk w] .
      then show "pst (bb + k) = P2 (B + (cnt_sum c ctop 0 vcp + k))"
        using e(14) k by simp
    qed
    have "entry_post F L Sel c ctop P1 P2 B suf1 st st'"
    proof (cases "T < F")
      case True
      then show ?thesis
        using e(12,13,15) sd fr rt mi rg' mz vv e(2) by (simp add: entry_post_def)
    next
      case False
      then have "T = 0"
        using h(2) by simp
      then show ?thesis
        using e(12,13,15) fr rt mi rg' mz False by (simp add: entry_post_def)
    qed
    then show ?thesis
      using e(1) by simp
  qed
  show ?thesis
  proof (cases "int vcp \<le> vlow st")
    case True
    then have lo: "0 \<le> vlow st" "nat (vlow st) < rend st"
      "F \<le> cnt_sum c ctop (nat (vlow st)) (rend st)"
      using i(5) by (auto simp: low_ok_def)
    have "cnt_sum c ctop (nat (vlow st)) (rend st) \<le> cnt_sum c ctop vcp (rend st)"
      using True lo by (intro cnt_sum_antimono) simp_all
    then have "F \<le> T"
      using lo(3) Tsplit by simp
    from skip [OF this frame_refl i(5) rg z] True show ?thesis
      by (simp add: pairs_def vcp_def)
  next
    case False
    note nlow = False
    show ?thesis
    proof (cases "back_scan c ctop F vcp (rend st) 0")
      case (Inl l)
      then have l: "vcp \<le> l" "l < rend st" "F \<le> cnt_sum c ctop l (rend st)"
        using back_scan_spec [OF vr, where c = c and ctop = ctop and F = F and freq = 0] by auto
      have "cnt_sum c ctop l (rend st) \<le> cnt_sum c ctop vcp (rend st)"
        using l by (intro cnt_sum_antimono) simp_all
      then have "F \<le> T"
        using l(3) Tsplit by simp
      moreover have "low_ok c ctop F (int l) (rend st)"
        using l by (simp add: low_ok_def)
      ultimately show ?thesis
        using skip [OF _ frame_refl _ rg z, of "int l"] nlow Inl
        by (simp add: pairs_def vcp_def [symmetric])
    next
      case (Inr lcs)
      then have lcs: "lcs = cnt_sum c ctop vcp (rend st)" "vcp < rend st \<longrightarrow> lcs < F"
        using back_scan_spec [OF vr, where c = c and ctop = ctop and F = F and freq = 0] by auto
      have lcsB: "lcs < F \<or> lcs = 0"
        using lcs vr by (cases "vcp < rend st") auto
      show ?thesis
      proof (cases "eorun st")
        case True
        have TL: "T = lcs"
          using Tsplit lcs(1) True by (simp add: range_end_def)
        have "range_end c st \<le> vhgh st"
          using rg True by (simp add: range_end_def ring_def)
        from emitc [OF lcs(1) _ frame_refl rg z this] lcsB TL nlow Inr True
        show ?thesis
          by (simp add: pairs_def vcp_def [symmetric])
      next
        case False
        then have rl: "rend st < length c"
          using i(3) by simp
        define f1 where "f1 = lcs + e_cnt (centry c ctop (rend st))"
        have ree: "range_end c st = run_end c (plen st) (rend st + 1)"
          using False by (simp add: range_end_def)
        have zn: "znext st = rend st + 1"
          using False by (simp add: znext_def)
        have f1c: "f1 = cnt_sum c ctop vcp (rend st + 1)"
          using cnt_sum_Suc [OF vr, of c ctop] lcs(1) by (simp add: f1_def)
        have T2: "T = f1 + cnt_sum c ctop (rend st + 1) (run_end c (plen st) (rend st + 1))"
          using cnt_sum_split [of "rend st" "rend st + 1" "run_end c (plen st) (rend st + 1)" c ctop]
            run_end_ge [of "rend st + 1" c "plen st"] Tsplit lcs(1)
          by (simp add: ree f1_def cnt_sum_one)
        show ?thesis
        proof (cases "f1 \<ge> F")
          case True
          then have "F \<le> T"
            using T2 by simp
          from skip [OF this frame_refl i(5) rg z] nlow Inr False True show ?thesis
            by (simp add: pairs_def vcp_def [symmetric] f1_def)
        next
          case lt: False
          let ?a = "ADVANCE c ctop P2 (rend st) st"
          have fa: "frame st ?a"
            by (rule frame_ADVANCE)
          have ar: "ring c ctop P2 B (rend st + 1) ?a" "vhgh ?a = max (vhgh st) (rend st + 1)"
            using ADVANCE_ring [OF rg rl] by simp_all
          have "\<exists>x. look_ahead c ctop P2 F (plen st) (rend st + 1) f1 ?a = Some x \<and>
             (case x of
                Inl st1 \<Rightarrow> frame ?a st1
                  \<and> F \<le> f1 + cnt_sum c ctop (rend st + 1) (run_end c (plen st) (rend st + 1))
              | Inr (f, st1) \<Rightarrow> frame ?a st1
                  \<and> f = f1 + cnt_sum c ctop (rend st + 1) (run_end c (plen st) (rend st + 1))
                  \<and> (f1 < F \<longrightarrow> f < F))"
            using rl i(1) top by (intro look_ahead_spec) simp_all
          then obtain x where x: "look_ahead c ctop P2 F (plen st) (rend st + 1) f1 ?a = Some x"
            "case x of
                Inl st1 \<Rightarrow> frame ?a st1
                  \<and> F \<le> f1 + cnt_sum c ctop (rend st + 1) (run_end c (plen st) (rend st + 1))
              | Inr (f, st1) \<Rightarrow> frame ?a st1
                  \<and> f = f1 + cnt_sum c ctop (rend st + 1) (run_end c (plen st) (rend st + 1))
                  \<and> (f1 < F \<longrightarrow> f < F)"
            by (elim exE conjE)
          obtain l' s1 where la:
            "x = Inl s1 \<or> (\<exists>f. x = Inr (f, s1) \<and> l' = run_end c (plen st) (rend st + 1))"
            "rend st + 1 \<le> l'" "ring c ctop P2 B l' s1" "vhgh s1 = max (vhgh ?a) l'"
            "\<forall>i. rend st + 1 \<le> i \<and> i < l' \<longrightarrow> plen st \<le> e_lcp (c ! i)"
            "rend st + 1 < l' \<longrightarrow> f1 + cnt_sum c ctop (rend st + 1) l' < F"
            using look_ahead_ring [OF x(1) ar(1) i(1) top] by (elim exE conjE)
          have fs: "frame ?a s1"
            using la(1) x(2) by auto
          have fr: "frame st (s1\<lparr>cdx := cdx st\<rparr>)"
            using frame_trans [OF fa fs] by (simp add: frame_def)
          have vh: "vhgh s1 = max (vhgh st) l'"
            using la(2,4) ar(2) by (simp add: max_def)
          have rg1: "ring c ctop P2 B (rend st) (s1\<lparr>cdx := cdx st\<rparr>)"
            using la(2,3) rg by (simp add: ring_def loaded_def)
          have cn: "znext st < l' \<longrightarrow> cnt_sum c ctop (vlcp st (plen st)) l' < F"
          proof
            assume a: "znext st < l'"
            have "cnt_sum c ctop vcp l' = cnt_sum c ctop vcp (rend st + 1)
                + cnt_sum c ctop (rend st + 1) l'"
              using vr la(2) by (intro cnt_sum_split) simp_all
            then show "cnt_sum c ctop (vlcp st (plen st)) l' < F"
              using la(6) a f1c by (simp add: zn vcp_def)
          qed
          have z0: "zinv c ctop F (plen st) (znext st) (vlcp st) (vhgh st)"
            using z by (simp add: merge_z_def)
          have "zinv c ctop F (plen st) (znext st) (vlcp st) (max (vhgh st) l')"
            using la(2,5) by (intro zinv_look [OF z0 _ cn]) (simp_all add: zn)
          then have mz1: "merge_z c ctop F (s1\<lparr>cdx := cdx st\<rparr>)"
            using fr vh False by (simp add: merge_z_def znext_def frame_def)
          have pr: "pairs F L Sel c ctop P1 P2 suf1 st =
              (case x of Inl st1 \<Rightarrow> Some (skip_entry suf1 (st1\<lparr>cdx := cdx st\<rparr>))
               | Inr (freq, st1) \<Rightarrow> emit L Sel P1 suf1 lcs freq (st1\<lparr>cdx := cdx st\<rparr>))"
            using nlow Inr False lt x(1)
            by (simp add: pairs_def vcp_def [symmetric] f1_def [symmetric] split: sum.splits)
          show ?thesis
          proof (cases x)
            case (Inl st1)
            then have s1: "st1 = s1"
              using la(1) by simp
            have a: "F \<le> T"
              using x(2) T2 Inl by simp
            have "skip_entry suf1 (s1\<lparr>cdx := cdx st\<rparr>)
                = skip_entry suf1 (s1\<lparr>cdx := cdx st, vlow := vlow st\<rparr>)"
              using fr by (simp add: frame_def skip_entry_def)
            then show ?thesis
              using skip [OF a fr i(5) rg1 mz1] pr Inl s1 by simp
          next
            case (Inr b)
            obtain f st1 where b: "b = (f, st1)" by (cases b)
            have s1: "st1 = s1" "l' = run_end c (plen st) (rend st + 1)"
              using la(1) Inr b by simp_all
            have a: "f = T" "f < F"
              using x(2) Inr b T2 lt by simp_all
            have "range_end c st \<le> vhgh (s1\<lparr>cdx := cdx st\<rparr>)"
              using vh s1(2) ree by simp
            from emitc [OF lcs(1) _ fr rg1 mz1 this] a pr Inr b s1 show ?thesis
              by simp
          qed
        qed
      qed
    qed
  qed
qed

lemma entry_post_keeps:
  assumes e: "entry_post F L Sel c ctop P1 P2 B suf1 st1 st'" and k: "keeps st st1"
  shows "entry_post F L Sel c ctop P1 P2 B suf1 st st'"
proof -
  have a: "p1idx st1 = p1idx st" "emitted st1 = emitted st" "nhits st1 = nhits st"
    using k by (simp_all add: keeps_def)
  show ?thesis
    using e unfolding entry_post_def a .
qed

lemma ring_panel_init: "ring c ctop P2 (p2idx st) (rend (panel_init st)) (panel_init st)"
  by (simp add: ring_def loaded_def panel_init_def POST_BUF_MASK_def POST_BUF_LEN_def)

lemma merge_z_panel_init: "merge_z c ctop F (panel_init st)"
  by (simp add: merge_z_def zinv_def znext_def panel_init_def)

lemma merge_entry_spec:
  assumes ne: "c \<noteq> []" and top: "e_lcp ctop = 11" and FB: "F \<le> POST_BUF_LEN"
    and pre: "if first then B = p2idx st
              else merge_inv c ctop F st \<and> ring c ctop P2 B (rend st) st \<and> merge_z c ctop F st
                   \<and> 12 \<le> e_lcp suf1"
  shows "\<exists>st'. merge_entry F K L Sel c ctop P1 P2 first suf1 st = Some st'
           \<and> entry_post F L Sel c ctop P1 P2 B suf1 st st'"
proof -
  have via_extend: "\<exists>st'. (case extend K c ctop P2 suf1 (plen st1) (rend st1) st1 of
                None \<Rightarrow> None
              | Some st2 \<Rightarrow> pairs F L Sel c ctop P1 P2 suf1 st2) = Some st'
           \<and> entry_post F L Sel c ctop P1 P2 B suf1 st st'"
    if "merge_inv c ctop F st1" "rend st1 < length c" "keeps st st1" "\<not> eorun st1"
      "ring c ctop P2 B (rend st1) st1" "merge_z c ctop F st1" for st1
  proof -
    note h = that
    have i: "12 \<le> plen st1" "\<forall>k\<in>{12..plen st1}. vlcp st1 k \<le> rend st1"
      "low_ok c ctop F (vlow st1) (rend st1)"
      using h(1) by (simp_all add: merge_inv_def minv_def)
    obtain st2 where st2: "extend K c ctop P2 suf1 (plen st1) (rend st1) st1 = Some st2"
      "merge_inv c ctop F st2" "keeps st1 st2"
      using extend_total [OF h(2) i(1) top i(2) i(3) h(4), of K P2 suf1] by (elim exE conjE)
    have v: "vlcp st1 (plen st1) \<le> rend st1"
      using i(1,2) by simp
    have z: "zinv c ctop F (plen st1) (rend st1 + 1) (vlcp st1) (vhgh st1)"
      using h(4,6) by (simp add: merge_z_def znext_def)
    have r2: "ring c ctop P2 B (rend st2) st2" "merge_z c ctop F st2"
      using extend_ring [OF st2(1) h(5) h(2) i(1) top h(4) v z] by simp_all
    obtain st' where st': "pairs F L Sel c ctop P1 P2 suf1 st2 = Some st'"
      "entry_post F L Sel c ctop P1 P2 B suf1 st2 st'"
      using pairs_spec [OF st2(2) top FB r2, of L Sel P1 suf1] by (elim exE conjE)
    have "entry_post F L Sel c ctop P1 P2 B suf1 st st'"
      using entry_post_keeps [OF st'(2) keeps_trans [OF h(3) st2(3)]] .
    then show ?thesis
      using st2(1) st'(1) by simp
  qed
  show ?thesis
  proof (cases first)
    case True
    then have B: "B = p2idx st"
      using pre by simp
    have "merge_inv c ctop F (panel_init st)"
      using ne by (simp add: merge_inv_def minv_def panel_init_def low_ok_def)
    moreover have "rend (panel_init st) < length c"
      using ne by (simp add: panel_init_def)
    moreover have "keeps st (panel_init st)"
      by (simp add: keeps_def panel_init_def)
    moreover have "\<not> eorun (panel_init st)"
      by (simp add: panel_init_def)
    moreover have "ring c ctop P2 B (rend (panel_init st)) (panel_init st)"
      unfolding B by (rule ring_panel_init)
    moreover have "merge_z c ctop F (panel_init st)"
      by (rule merge_z_panel_init)
    ultimately show ?thesis
      using via_extend [of "panel_init st"] True
      by (simp add: merge_entry_def)
  next
    case False
    then have p: "merge_inv c ctop F st" "12 \<le> e_lcp suf1"
      and q: "ring c ctop P2 B (rend st) st" "merge_z c ctop F st"
      using pre by simp_all
    obtain g st1 where a: "adjust c ctop P2 suf1 st = Some (g, st1)" "merge_inv c ctop F st1"
      "keeps st st1" "g \<or> (rend st1 < length c \<and> \<not> eorun st1)"
      using adjust_total [OF p top, of P2] by (elim exE conjE)
    have r1: "ring c ctop P2 B (rend st1) st1" "merge_z c ctop F st1"
      using adjust_ring [OF a(1) p(1) q p(2) top] by simp_all
    show ?thesis
    proof (cases g)
      case True
      obtain st' where st': "pairs F L Sel c ctop P1 P2 suf1 st1 = Some st'"
        "entry_post F L Sel c ctop P1 P2 B suf1 st1 st'"
        using pairs_spec [OF a(2) top FB r1, of L Sel P1 suf1] by (elim exE conjE)
      show ?thesis
        using entry_post_keeps [OF st'(2) a(3)] st'(1) a(1) True False
        by (simp add: merge_entry_def)
    next
      case ng: False
      then have "rend st1 < length c" "\<not> eorun st1"
        using a(4) by simp_all
      from via_extend [OF a(2) this(1) a(3) this(2) r1] a(1) ng False show ?thesis
        by (simp add: merge_entry_def)
    qed
  qed
qed

lemma merge_entries_spec:
  assumes ne: "c \<noteq> []" and top: "e_lcp ctop = 11" and FB: "F \<le> POST_BUF_LEN"
    and pre: "if first then B = p2idx st
              else merge_inv c ctop F st \<and> ring c ctop P2 B (rend st) st \<and> merge_z c ctop F st"
    and wf: "\<forall>x\<in>set (if first then tl t1 else t1). 12 \<le> e_lcp x"
  shows "\<exists>st'. merge_entries F K L Sel c ctop P1 P2 first t1 st = Some st'
           \<and> p1idx st' = p1idx st + sum_list (map e_cnt t1)
           \<and> (if first \<and> t1 = [] then st' = st
               else merge_inv c ctop F st' \<and> ring c ctop P2 B (rend st') st'
                    \<and> merge_z c ctop F st')
           \<and> (F \<le> 1 \<longrightarrow> emitted st' = emitted st)"
  using pre wf
proof (induction t1 arbitrary: first st)
  case Nil
  then show ?case by (cases first) simp_all
next
  case (Cons x xs)
  have "if first then B = p2idx st
        else merge_inv c ctop F st \<and> ring c ctop P2 B (rend st) st \<and> merge_z c ctop F st
             \<and> 12 \<le> e_lcp x"
    using Cons.prems by (cases first) simp_all
  from merge_entry_spec [OF ne top FB this, of K L Sel P1]
  obtain st1 where st1: "merge_entry F K L Sel c ctop P1 P2 first x st = Some st1"
    "entry_post F L Sel c ctop P1 P2 B x st st1"
    by (elim exE conjE)
  have inv1: "merge_inv c ctop F st1 \<and> ring c ctop P2 B (rend st1) st1 \<and> merge_z c ctop F st1"
    and p1: "p1idx st1 = p1idx st + e_cnt x"
    using st1(2) by (simp_all add: entry_post_def)
  have em: "F \<le> 1 \<longrightarrow> emitted st1 = emitted st"
  proof
    assume F1: "F \<le> 1"
    have e: "emitted st1 = emitted st @
           (if range_total c ctop st1 < F
            then seeds_of L Sel P1 x (plen st1) (p1idx st) (range_total c ctop st1)
                   (\<lambda>j. P2 (B + j)) (cnt_sum c ctop 0 (vlcp st1 (plen st1)))
            else [])"
      using st1(2) by (simp add: entry_post_def)
    show "emitted st1 = emitted st"
    proof (cases "range_total c ctop st1 < F")
      case True
      then have "range_total c ctop st1 = 0"
        using F1 by simp
      then show ?thesis
        using e by simp
    next
      case False
      then show ?thesis
        using e by simp
    qed
  qed
  have w: "\<forall>y\<in>set (if False then tl xs else xs). 12 \<le> e_lcp y"
    using Cons.prems(2) by (cases first) simp_all
  have "if False then B = p2idx st1
        else merge_inv c ctop F st1 \<and> ring c ctop P2 B (rend st1) st1 \<and> merge_z c ctop F st1"
    using inv1 by simp
  from Cons.IH [OF this w]
  obtain st' where st': "merge_entries F K L Sel c ctop P1 P2 False xs st1 = Some st'"
    "p1idx st' = p1idx st1 + sum_list (map e_cnt xs)"
    "merge_inv c ctop F st' \<and> ring c ctop P2 B (rend st') st' \<and> merge_z c ctop F st'"
    "F \<le> 1 \<longrightarrow> emitted st' = emitted st1"
    by auto
  show ?case
    using st1(1) st' p1 em by simp
qed

lemma merge_panel_snoc:
  assumes FB: "F \<le> POST_BUF_LEN"
    and wf: "\<forall>y\<in>set (tl (xs @ [x])). 12 \<le> e_lcp y"
  shows "\<exists>st1 st2. merge_panel F K L Sel c stale P1 P2 xs st = Some st1
           \<and> merge_panel F K L Sel c stale P1 P2 (xs @ [x]) st = Some st2
           \<and> (if c = [] then emitted st2 = emitted st1
               else entry_post F L Sel c (stale\<lparr>e_lcp := 11\<rparr>) P1 P2 (p2idx st) x st1 st2)"
proof (cases "c = []")
  case True
  then show ?thesis
    by (simp add: merge_panel_def)
next
  case False
  let ?top = "stale\<lparr>e_lcp := 11\<rparr>"
  let ?B = "p2idx st"
  have top: "e_lcp ?top = 11"
    by simp
  have wfx: "\<forall>y\<in>set (if True then tl xs else xs). 12 \<le> e_lcp y"
    using wf by (cases xs) simp_all
  have "if True then ?B = p2idx st
        else merge_inv c ?top F st \<and> ring c ?top P2 ?B (rend st) st \<and> merge_z c ?top F st"
    by simp
  from merge_entries_spec [OF False top FB this wfx, of K L Sel P1]
  obtain st1 where st1: "merge_entries F K L Sel c ?top P1 P2 True xs st = Some st1"
    "if True \<and> xs = [] then st1 = st
     else merge_inv c ?top F st1 \<and> ring c ?top P2 ?B (rend st1) st1 \<and> merge_z c ?top F st1"
    by (elim exE conjE)
  have "if xs = [] then ?B = p2idx st1
        else merge_inv c ?top F st1 \<and> ring c ?top P2 ?B (rend st1) st1 \<and> merge_z c ?top F st1
             \<and> 12 \<le> e_lcp x"
    using st1(2) wf by (cases xs) simp_all
  from merge_entry_spec [OF False top FB this, of K L Sel P1]
  obtain st2 where st2: "merge_entry F K L Sel c ?top P1 P2 (xs = []) x st1 = Some st2"
    "entry_post F L Sel c ?top P1 P2 ?B x st1 st2"
    by (elim exE conjE)
  have "merge_panel F K L Sel c stale P1 P2 (xs @ [x]) st = Some st2"
    using False st1(1) st2(1) by (simp add: merge_panel_def merge_entries_snoc)
  then show ?thesis
    using False st1(1) st2(2) by (simp add: merge_panel_def)
qed

lemmas merge_eval = merge_panel_def merge_entry_def panel_init_def extend.simps scan_less.simps
  pairs_def back_scan.simps look_ahead.simps ADVANCE_def skip_entry_def centry_def
  cbyte_def mbyte_def adjust_def skip_run.simps
  uniq_c_def uniq_t_def next_t_def stale_e_def merge_st0_def Let_def POST_BUF_MASK_def
  POST_BUF_LEN_def emit_def seed_recs_def demo_P1_def demo_P2_def demo_Sel_def demo_L_def
  range_total_def range_end_def cnt_sum_def run_end.simps

lemma uniq_state:
  "map_option (\<lambda>s. (range_total uniq_c (stale_e\<lparr>e_lcp := 11\<rparr>) s, plen s, vlcp s (plen s)))
     (merge_panel F 14 demo_L demo_Sel uniq_c stale_e demo_P1 demo_P2 [uniq_t] merge_st0)
   = Some (1, 14, 0)"
  by (simp add: merge_eval)

text \<open>
  The merge for a cutoff of at most \<^verbatim>\<open>POST_BUF_LEN\<close>.  Let a panel be merged up to and
  including the T1 entry \<open>x\<close>, the cutoff \<open>F\<close> (\<^verbatim>\<open>FREQ\<close>) being at most \<^verbatim>\<open>POST_BUF_LEN\<close>, every
  count byte involved positive, and the lcp byte of every T1 entry behind the first of the
  panel at least 12.  The merge returns, and the records \<open>new\<close> it writes for \<open>x\<close> are
  these.  Records are written if and only if the cache is not empty (then \<^verbatim>\<open>plen\<close> \<open>\<ge> 12\<close> at
  the label \<^verbatim>\<open>pairs\<close>) and \<open>range_total\<close> of the state that the code has reached is below
  \<open>F\<close>.  When records are written their number is the count of \<open>x\<close> times \<open>range_total\<close>: for
  each position of \<open>x\<close> in P1, one record with lcp \<^verbatim>\<open>plen\<close> for each position in P2 of the
  cache entries of that range, in the order of P2.
\<close>

lemma merge_panel_emits_iff:
  assumes FB: "F \<le> POST_BUF_LEN"
    and wf: "\<forall>y\<in>set (tl (xs @ [x])). 12 \<le> e_lcp y"
    and pos: "\<forall>e\<in>set c. 0 < e_cnt e" and cnt: "0 < e_cnt x"
  shows "\<exists>st1 st2 new.
      merge_panel F K L Sel c stale P1 P2 xs st = Some st1
    \<and> merge_panel F K L Sel c stale P1 P2 (xs @ [x]) st = Some st2
    \<and> emitted st2 = emitted st1 @ new
    \<and> (c \<noteq> [] \<longrightarrow> 12 \<le> plen st2)
    \<and> (new \<noteq> [] \<longleftrightarrow> c \<noteq> [] \<and> range_total c (stale\<lparr>e_lcp := 11\<rparr>) st2 < F)
    \<and> (new \<noteq> [] \<longrightarrow>
          length new = e_cnt x * range_total c (stale\<lparr>e_lcp := 11\<rparr>) st2
        \<and> new = concat (map (\<lambda>i. seed_recs L Sel (plen st2) (\<lambda>j. P2 (p2idx st + j))
                                     (cnt_sum c (stale\<lparr>e_lcp := 11\<rparr>) 0 (vlcp st2 (plen st2)))
                                     (range_total c (stale\<lparr>e_lcp := 11\<rparr>) st2)
                                     (P1 (p1idx st1 + i))) [0..<e_cnt x]))"
proof -
  let ?top = "stale\<lparr>e_lcp := 11\<rparr>"
  obtain st1 st2 where r: "merge_panel F K L Sel c stale P1 P2 xs st = Some st1"
    "merge_panel F K L Sel c stale P1 P2 (xs @ [x]) st = Some st2"
    "if c = [] then emitted st2 = emitted st1
     else entry_post F L Sel c ?top P1 P2 (p2idx st) x st1 st2"
    using merge_panel_snoc [OF FB wf, of K L Sel c stale P1 P2 st] by (elim exE conjE)
  show ?thesis
  proof (cases "c = []")
    case True
    then have "emitted st2 = emitted st1 @ []"
      using r(3) by simp
    then show ?thesis
      using r(1,2) True by blast
  next
    case False
    define T where "T = range_total c ?top st2"
    define S where "S = seeds_of L Sel P1 x (plen st2) (p1idx st1) T
                   (\<lambda>j. P2 (p2idx st + j)) (cnt_sum c ?top 0 (vlcp st2 (plen st2)))"
    have ep: "entry_post F L Sel c ?top P1 P2 (p2idx st) x st1 st2"
      using r(3) False by simp
    then have inv: "merge_inv c ?top F st2"
      by (simp add: entry_post_def)
    then have p12: "12 \<le> plen st2"
      by (simp add: merge_inv_def minv_def)
    have Tpos: "0 < T"
      using range_pos [OF inv pos] by (simp add: T_def)
    have e: "emitted st2 = emitted st1 @ (if T < F then S else [])"
      using ep by (simp add: entry_post_def T_def S_def)
    define new where "new = (if T < F then S else [])"
    have len: "length S = e_cnt x * T"
      by (simp add: S_def seeds_of_def concat_seed_recs_length)
    have a: "emitted st2 = emitted st1 @ new"
      using e by (simp add: new_def)
    have b: "new \<noteq> [] \<longleftrightarrow> c \<noteq> [] \<and> T < F"
    proof (cases "T < F")
      case True
      then have "length new = e_cnt x * T"
        using len by (simp add: new_def)
      then have "length new \<noteq> 0"
        using Tpos cnt by simp
      then show ?thesis
        using True False by auto
    next
      case nlt: False
      then show ?thesis
        by (simp add: new_def)
    qed
    have d: "new \<noteq> [] \<longrightarrow> length new = e_cnt x * T
        \<and> new = concat (map (\<lambda>i. seed_recs L Sel (plen st2) (\<lambda>j. P2 (p2idx st + j))
                                     (cnt_sum c ?top 0 (vlcp st2 (plen st2))) T
                                     (P1 (p1idx st1 + i))) [0..<e_cnt x])"
      using len by (simp add: new_def S_def seeds_of_def)
    show ?thesis
      using r(1,2) a b d p12 unfolding T_def by blast
  qed
qed

lemma merge_panel_emits_uniq:
  "(2::nat) \<le> POST_BUF_LEN \<and> tl ([] @ [uniq_t]) = [] \<and> map e_cnt uniq_c = [1]
   \<and> e_cnt uniq_t = 1
   \<and> (\<exists>st2. merge_panel 2 14 demo_L demo_Sel uniq_c stale_e demo_P1 demo_P2 [uniq_t] merge_st0
              = Some st2
         \<and> range_total uniq_c (stale_e\<lparr>e_lcp := 11\<rparr>) st2 = 1
         \<and> emitted st2 = [\<lparr>r_same = True, r_dest = 0, r_lcp = 14, r_apost = 500,
                            r_bpost = 1000\<rparr>])"
proof -
  let ?top = "stale_e\<lparr>e_lcp := 11\<rparr>"
  have h: "(2::nat) \<le> POST_BUF_LEN" "\<forall>y\<in>set (tl ([] @ [uniq_t])). 12 \<le> e_lcp y"
    "\<forall>e\<in>set uniq_c. 0 < e_cnt e" "0 < e_cnt uniq_t"
    by (simp_all add: POST_BUF_LEN_def uniq_c_def uniq_t_def)
  obtain st1 st2 new where r:
    "merge_panel 2 14 demo_L demo_Sel uniq_c stale_e demo_P1 demo_P2 [] merge_st0 = Some st1"
    "merge_panel 2 14 demo_L demo_Sel uniq_c stale_e demo_P1 demo_P2 ([] @ [uniq_t]) merge_st0
       = Some st2"
    "emitted st2 = emitted st1 @ new"
    "new \<noteq> [] \<longleftrightarrow> uniq_c \<noteq> [] \<and> range_total uniq_c ?top st2 < 2"
    "new \<noteq> [] \<longrightarrow>
       new = concat (map (\<lambda>i. seed_recs demo_L demo_Sel (plen st2)
                                 (\<lambda>j. demo_P2 (p2idx merge_st0 + j))
                                 (cnt_sum uniq_c ?top 0 (vlcp st2 (plen st2)))
                                 (range_total uniq_c ?top st2)
                                 (demo_P1 (p1idx st1 + i))) [0..<e_cnt uniq_t])"
    using merge_panel_emits_iff [OF h, of 14 demo_L demo_Sel stale_e demo_P1 demo_P2 merge_st0]
    by blast
  have e1: "st1 = merge_st0"
    using r(1) by (simp add: merge_panel_def uniq_c_def)
  have T: "range_total uniq_c ?top st2 = 1" "plen st2 = 14" "vlcp st2 14 = 0"
    using uniq_state [of 2] r(2) by auto
  have "new \<noteq> []"
    using r(4) T by (simp add: uniq_c_def)
  then have "new = [\<lparr>r_same = True, r_dest = 0, r_lcp = 14, r_apost = 500, r_bpost = 1000\<rparr>]"
    using r(5) T e1
    by (simp add: uniq_t_def seed_recs_def merge_st0_def demo_P1_def demo_P2_def demo_Sel_def
        demo_L_def)
  then show ?thesis
    using r(2,3) e1 T by (simp add: POST_BUF_LEN_def uniq_c_def uniq_t_def merge_st0_def)
qed

text \<open>The merge of the panel \<open>ring_c\<close> with the cutoff 5000.\<close>

lemma ring_c_length: "length ring_c = 17"
  by (simp add: ring_c_def)

lemma ring_c_nth: "i < 17 \<Longrightarrow> ring_c ! i = ring_e i"
  by (simp add: ring_c_def)

lemma ring_centry: "i < 17 \<Longrightarrow> centry ring_c ct i = ring_e i"
  by (simp add: centry_def ring_c_length ring_c_nth)

lemma ring_cnt_sum: "j \<le> 17 \<Longrightarrow> i \<le> j \<Longrightarrow> cnt_sum ring_c ct i j = 255 * (j - i)"
proof (induction j)
  case 0
  then show ?case
    by (simp add: cnt_sum_def)
next
  case (Suc j)
  show ?case
  proof (cases "i = Suc j")
    case True
    then show ?thesis
      by (simp add: cnt_sum_def)
  next
    case False
    then have ij: "i \<le> j"
      using Suc.prems by simp
    have "cnt_sum ring_c ct i (Suc j) = cnt_sum ring_c ct i j + e_cnt (centry ring_c ct j)"
      using ij by (rule cnt_sum_Suc)
    also have "\<dots> = 255 * (j - i) + 255"
      using Suc ij by (simp add: ring_centry ring_e_def)
    finally show ?thesis
      using ij by (simp add: Suc_diff_le)
  qed
qed

lemma ring_run_end_aux: "l \<le> 17 \<Longrightarrow> 0 < l \<Longrightarrow> run_end ring_c 12 l = 17"
proof (induction "17 - l" arbitrary: l)
  case 0
  then have "l = 17"
    by simp
  then show ?case
    by (subst run_end.simps) (simp add: ring_c_length)
next
  case (Suc n)
  then have l: "l < 17"
    by simp
  have "12 \<le> e_lcp (ring_c ! l)"
    using l Suc.prems by (simp add: ring_c_nth ring_e_def)
  then have "run_end ring_c 12 l = run_end ring_c 12 (l + 1)"
    using l by (subst run_end.simps) (simp add: ring_c_length)
  also have "\<dots> = 17"
    using Suc l by (intro Suc.hyps) simp_all
  finally show ?case .
qed

lemma ring_loaded_run:
  "\<exists>st1. look_ahead ring_c (stale_e\<lparr>e_lcp := 11\<rparr>) demo_P2 5000 12 1 255
            (ADVANCE ring_c (stale_e\<lparr>e_lcp := 11\<rparr>) demo_P2 0
               ((panel_init merge_st0)\<lparr>plen := 12, rend := 0\<rparr>))
          = Some (Inr (4335, st1))
     \<and> frame ((panel_init merge_st0)\<lparr>plen := 12, rend := 0\<rparr>) st1
     \<and> loaded demo_P2 0 4335 st1"
proof -
  let ?top = "stale_e\<lparr>e_lcp := 11\<rparr>"
  let ?a = "panel_init merge_st0"
  let ?b = "?a\<lparr>plen := 12, rend := 0\<rparr>"
  let ?adv = "ADVANCE ring_c ?top demo_P2 0 ?b"
  have top: "e_lcp ?top = 11"
    by simp
  have re: "run_end ring_c 12 1 = 17"
    by (rule ring_run_end_aux) simp_all
  have ra: "ring ring_c ?top demo_P2 (p2idx merge_st0) (rend ?a) ?a"
    by (rule ring_panel_init)
  have r0: "rend ?a = 0" "p2idx merge_st0 = 0"
    by (simp_all add: panel_init_def merge_st0_def)
  have rb: "ring ring_c ?top demo_P2 0 0 ?b"
    using ra unfolding r0 by (rule ring_same [rotated -1]) simp_all
  have radv: "ring ring_c ?top demo_P2 0 (0 + 1) ?adv"
    using ADVANCE_ring [OF rb] by (simp add: ring_c_length)
  obtain x where x: "look_ahead ring_c ?top demo_P2 5000 12 1 255 ?adv = Some x"
    and xs: "case x of
        Inl st1 \<Rightarrow> frame ?adv st1 \<and> 5000 \<le> 255 + cnt_sum ring_c ?top 1 (run_end ring_c 12 1)
      | Inr (f, st1) \<Rightarrow> frame ?adv st1 \<and> f = 255 + cnt_sum ring_c ?top 1 (run_end ring_c 12 1)
                         \<and> (255 < (5000::nat) \<longrightarrow> f < 5000)"
    using look_ahead_spec [of 1 ring_c 12 ?top demo_P2 5000 255 ?adv]
    by (auto simp: ring_c_length)
  have cs: "cnt_sum ring_c ?top 1 (run_end ring_c 12 1) = 4080"
    unfolding re by (simp add: ring_cnt_sum)
  obtain st1 where x1: "x = Inr (4335, st1)" and f1: "frame ?adv st1"
    using xs unfolding cs by (cases x) auto
  have x': "look_ahead ring_c ?top demo_P2 5000 12 (0 + 1) 255 ?adv = Some x"
    using x by simp
  obtain l' st1' where l: "x = Inl st1' \<or> (\<exists>f. x = Inr (f, st1') \<and> l' = run_end ring_c 12 (0 + 1))"
    "ring ring_c ?top demo_P2 0 l' st1'"
    using look_ahead_ring [OF x' radv _ top] by auto
  have e: "st1' = st1" "l' = 17"
    using l(1) x1 re by auto
  have "loaded demo_P2 0 (cnt_sum ring_c ?top 0 (vhgh st1)) st1" "17 \<le> vhgh st1"
    "vhgh st1 \<le> length ring_c"
    using l(2) unfolding e by (simp_all add: ring_def)
  then have ld: "loaded demo_P2 0 4335 st1"
    by (simp add: ring_c_length ring_cnt_sum)
  have "frame ?b ?adv"
    by (rule frame_ADVANCE)
  then have "frame ?b st1"
    using f1 by (rule frame_trans)
  then show ?thesis
    using x x1 ld by blast
qed

lemma ring_extend:
  "extend 16 ring_c (stale_e\<lparr>e_lcp := 11\<rparr>) demo_P2 low_t 12 0 (panel_init merge_st0)
     = Some ((panel_init merge_st0)\<lparr>plen := 12, rend := 0\<rparr>)"
proof -
  have "scan_less ring_c (stale_e\<lparr>e_lcp := 11\<rparr>) demo_P2 (cbyte ! 12) (mbyte ! 12)
          ((e_suf low_t ! (cbyte ! 12)) AND (mbyte ! 12)) 12 0 (panel_init merge_st0)
        = Some (Inr (0, panel_init merge_st0, 64))"
    by (subst scan_less.simps)
      (simp add: ring_centry ring_e_def ring_c_length low_t_def cbyte_def mbyte_def)
  then show ?thesis
    by (subst extend.simps) (simp add: low_t_def cbyte_def mbyte_def)
qed

lemma ring_run_emit:
  "\<exists>st1 st'. ring_run = Some st' \<and> loaded demo_P2 0 4335 st1
     \<and> plen st' = 12 \<and> eorun st' = False \<and> rend st' = 0 \<and> vlcp st' 12 = 0
     \<and> emitted st' = seed_recs demo_L demo_Sel 12
          (\<lambda>i. if 4096 \<le> i \<and> i < 4335 then post st1 (i - 4096) else post st1 i) 0 4335
          (demo_P1 0)"
proof -
  let ?top = "stale_e\<lparr>e_lcp := 11\<rparr>"
  let ?b = "(panel_init merge_st0)\<lparr>plen := 12, rend := 0\<rparr>"
  obtain st1 where la: "look_ahead ring_c ?top demo_P2 5000 12 1 255
            (ADVANCE ring_c ?top demo_P2 0 ?b) = Some (Inr (4335, st1))"
    and fr: "frame ?b st1" and ld: "loaded demo_P2 0 4335 st1"
    using ring_loaded_run by blast
  have f: "plen st1 = 12" "eorun st1 = False" "rend st1 = 0" "vlcp st1 12 = 0"
    "emitted st1 = []" "p1idx st1 = 0"
    using fr by (simp_all add: frame_def panel_init_def merge_st0_def)
  have b: "vlcp ?b (plen ?b) = 0" "vlow ?b = - 1" "rend ?b = 0" "\<not> eorun ?b" "plen ?b = 12"
    "cdx ?b = 0"
    by (simp_all add: panel_init_def)
  have v: "vlcp (panel_init merge_st0) 12 = 0" "eorun (panel_init merge_st0) = False"
    by (simp_all add: panel_init_def)
  have bs: "back_scan ring_c ?top 5000 0 0 0 = Inr 0"
    by (subst back_scan.simps) simp
  have pr: "pairs 5000 demo_L demo_Sel ring_c ?top demo_P1 demo_P2 low_t ?b
      = emit demo_L demo_Sel demo_P1 low_t 0 4335 (st1\<lparr>cdx := 0\<rparr>)"
    unfolding pairs_def b using la by (simp add: v bs ring_centry ring_e_def)
  have pi: "plen (panel_init merge_st0) = 12" "rend (panel_init merge_st0) = 0"
    by (simp_all add: panel_init_def)
  have ne: "ring_c \<noteq> []"
    using ring_c_length by auto
  have run: "ring_run = emit demo_L demo_Sel demo_P1 low_t 0 4335 (st1\<lparr>cdx := 0\<rparr>)"
    unfolding ring_run_def merge_panel_def
    using ne pr by (simp add: merge_entry_def ring_extend pi split: option.splits)
  have m: "(4335::nat) AND POST_BUF_MASK = 239"
    by (simp add: and_buf_mask POST_BUF_LEN_def)
  have "\<exists>st'. ring_run = Some st' \<and> plen st' = 12 \<and> eorun st' = False \<and> rend st' = 0
     \<and> vlcp st' 12 = 0
     \<and> emitted st' = seed_recs demo_L demo_Sel 12
          (\<lambda>i. if 4096 \<le> i \<and> i < 4335 then post st1 (i - 4096) else post st1 i) 0 4335
          (demo_P1 0)"
    unfolding run
    by (simp add: emit_def Let_def m f low_t_def) (simp add: POST_BUF_LEN_def cong: if_cong)
  then show ?thesis
    using ld by blast
qed

lemma seed_recs_bpost: "map r_bpost (seed_recs L Sel pl pst bb freq a) = map (\<lambda>k. pst (bb + k)) [0..<freq]"
  by (simp add: seed_recs_def comp_def)

lemma upt_three: "a \<le> b \<Longrightarrow> b \<le> c \<Longrightarrow> [0..<c] = [0..<a] @ [a..<b] @ [b..<c]"
proof -
  assume ab: "a \<le> b" and bc: "b \<le> c"
  have "[0..<b + (c - b)] = [0..<b] @ [b..<b + (c - b)]"
    by (rule upt_add_eq_append) simp
  moreover have "[0..<a + (b - a)] = [0..<a] @ [a..<a + (b - a)]"
    by (rule upt_add_eq_append) simp
  ultimately show ?thesis
    using ab bc by simp
qed

lemma ring_base: "base_at 12 low_t = 0" "map (base_at 12) ring_c = replicate 17 64"
proof -
  show "base_at 12 low_t = 0"
    by (simp add: base_at_def low_t_def cbyte_def mbyte_def)
  have "[0..<17] = [0, 1, 2, 3, 4, 5, 6, 7, 8, 9, 10, 11, 12, 13, 14, 15, 16::nat]"
    by (simp add: upt_rec)
  then have "map (base_at 12) ring_c
      = [64, 64, 64, 64, 64, 64, 64, 64, 64, 64, 64, 64, 64, 64, 64, 64, 64]"
    by (simp add: base_at_def ring_c_def ring_e_def cbyte_def mbyte_def)
  also have "\<dots> = replicate 17 64"
    by (simp add: numeral_eq_Suc)
  finally show "map (base_at 12) ring_c = replicate 17 64" .
qed

text \<open>
  Claim C1.  With \<^verbatim>\<open>FREQ = 5000\<close> the T1 entry \<open>low_t\<close> matches the 17 entries of \<open>ring_c\<close> in
  the 12 bases of the panel and differs from each of them in base 12, so \<^verbatim>\<open>plen\<close> is 12 and
  the range holds the 4335 positions \<open>demo_P2 0, \<dots>, demo_P2 4334\<close>, fewer than the cutoff.
  The code writes 4335 records, but the ring \<^verbatim>\<open>post\<close> has \<^verbatim>\<open>POST_BUF_LEN = 4096\<close> slots in
  which \<^verbatim>\<open>ADVANCE\<close> wraps around: the positions 4096 to 4334 of the range overwrite the
  positions 0 to 238 before line 2079 copies these slots behind the ring.  The records carry
  the positions 4096 to 4334, then 239 to 4095, then 4096 to 4334 again: 239 positions of
  the range are in no record, and 239 pairs are written twice.
\<close>

theorem ring_overrun_positions:
  "base_at 12 low_t = 0 \<and> map (base_at 12) ring_c = replicate 17 64
   \<and> map_option plen ring_run = Some 12
   \<and> map_option (range_total ring_c (stale_e\<lparr>e_lcp := 11\<rparr>)) ring_run = Some 4335
   \<and> map_option (map r_bpost \<circ> emitted) ring_run
       = Some (map demo_P2 ([4096..<4335] @ [239..<4096] @ [4096..<4335]))"
proof -
  let ?top = "stale_e\<lparr>e_lcp := 11\<rparr>"
  obtain st1 st' where r: "ring_run = Some st'" and ld: "loaded demo_P2 0 4335 st1"
    and s: "plen st' = 12" "eorun st' = False" "rend st' = 0" "vlcp st' 12 = 0"
    and e: "emitted st' = seed_recs demo_L demo_Sel 12
          (\<lambda>i. if 4096 \<le> i \<and> i < 4335 then post st1 (i - 4096) else post st1 i) 0 4335
          (demo_P1 0)"
    using ring_run_emit by blast
  let ?pst = "\<lambda>i. if 4096 \<le> i \<and> i < 4335 then post st1 (i - 4096) else post st1 i"
  have slot: "post st1 (j mod 4096) = demo_P2 j" if "239 \<le> j" "j < 4335" for j
    using ld that by (simp add: loaded_def POST_BUF_LEN_def)
  have re: "run_end ring_c 12 1 = 17"
    by (rule ring_run_end_aux) simp_all
  have re': "run_end ring_c 12 (Suc 0) = 17"
    using re by simp
  have rt: "range_total ring_c ?top st' = 4335"
    by (simp add: range_total_def range_end_def s re' ring_cnt_sum)
  have mem: "a \<le> k \<and> k < b" if "k \<in> set [a..<b]" for a b k :: nat
    using that unfolding set_upt atLeastLessThan_iff .
  have p1: "map ?pst [0..<239] = map demo_P2 [4096..<4335]"
  proof -
    have "map ?pst [0..<239] = map (\<lambda>k. demo_P2 (k + 4096)) [0..<239]"
    proof (intro map_cong refl)
      fix k
      assume "k \<in> set [0..<239]"
      then have "k < 239"
        using mem [of k 0 239] by blast
      then show "?pst k = demo_P2 (k + 4096)"
        using slot [of "k + 4096"] by simp
    qed
    also have "\<dots> = map demo_P2 (map (\<lambda>k. k + 4096) [0..<239])"
      by (simp only: map_map comp_def)
    also have "map (\<lambda>k. k + 4096) [0..<239] = [4096..<239 + 4096]"
      by (rule map_add_upt)
    finally show ?thesis
      by simp
  qed
  have p2: "map ?pst [239..<4096] = map demo_P2 [239..<4096]"
  proof (intro map_cong refl)
    fix k
    assume "k \<in> set [239..<4096]"
    then have "239 \<le> k \<and> k < 4096"
      by (rule mem)
    then show "?pst k = demo_P2 k"
      using slot [of k] by simp
  qed
  have p3: "map ?pst [4096..<4335] = map demo_P2 [4096..<4335]"
  proof (intro map_cong refl)
    fix k
    assume "k \<in> set [4096..<4335]"
    then have k: "4096 \<le> k \<and> k < 4335"
      by (rule mem)
    then have "k mod 4096 = k - 4096"
      using wrap_index [of k] by (simp add: POST_BUF_LEN_def)
    then show "?pst k = demo_P2 k"
      using slot [of k] k by simp
  qed
  have "[0..<4335] = [0..<239] @ [239..<4096] @ [4096..<4335]"
    by (rule upt_three) simp_all
  then have "map ?pst [0..<4335]
      = map ?pst [0..<239] @ map ?pst [239..<4096] @ map ?pst [4096..<4335]"
    by (simp only: map_append)
  then have "map ?pst [0..<4335] = map demo_P2 ([4096..<4335] @ [239..<4096] @ [4096..<4335])"
    unfolding p1 p2 p3 by (simp only: map_append)
  then have "map r_bpost (emitted st') = map demo_P2 ([4096..<4335] @ [239..<4096] @ [4096..<4335])"
    unfolding e seed_recs_bpost by (simp only: add_0)
  then have "map_option plen ring_run = Some 12
   \<and> map_option (range_total ring_c (stale_e\<lparr>e_lcp := 11\<rparr>)) ring_run = Some 4335
   \<and> map_option (map r_bpost \<circ> emitted) ring_run
       = Some (map demo_P2 ([4096..<4335] @ [239..<4096] @ [4096..<4335]))"
    unfolding r using s(1) rt by (simp only: option.map comp_def)
  then show ?thesis
    using ring_base by blast
qed

text \<open>
  Claim C3, as the code has it.  With \<^verbatim>\<open>FREQ = 1\<close> the merge of a panel returns and writes
  no record at all: the sum of the counts is compared with \<^verbatim>\<open>freq >= FREQ\<close>, and a range
  that holds a position has a sum of at least 1.
\<close>

theorem merge_panel_freq_one:
  assumes wf: "\<forall>y\<in>set (tl t1). 12 \<le> e_lcp y"
  shows "\<exists>st'. merge_panel 1 K L Sel c stale P1 P2 t1 st = Some st' \<and> emitted st' = emitted st"
proof (cases "c = []")
  case True
  then show ?thesis
    by (simp add: merge_panel_def)
next
  case False
  let ?top = "stale\<lparr>e_lcp := 11\<rparr>"
  have top: "e_lcp ?top = 11"
    by simp
  have FB: "(1::nat) \<le> POST_BUF_LEN"
    by (simp add: POST_BUF_LEN_def)
  have wfx: "\<forall>y\<in>set (if True then tl t1 else t1). 12 \<le> e_lcp y"
    using wf by simp
  have "if True then p2idx st = p2idx st
        else merge_inv c ?top 1 st \<and> ring c ?top P2 (p2idx st) (rend st) st
             \<and> merge_z c ?top 1 st"
    by simp
  from merge_entries_spec [OF False top FB this wfx, of K L Sel P1]
  show ?thesis
    using False by (auto simp: merge_panel_def)
qed

theorem merge_panel_freq_one_witness:
  "map e_lcp (tl [uniq_t, next_t]) = [13]
   \<and> (\<exists>st'. merge_panel 1 14 demo_L demo_Sel uniq_c stale_e demo_P1 demo_P2 [uniq_t, next_t]
               merge_st0 = Some st'
          \<and> emitted st' = [])"
proof -
  have "\<forall>y\<in>set (tl [uniq_t, next_t]). 12 \<le> e_lcp y"
    by (simp add: next_t_def)
  from merge_panel_freq_one [OF this, of 14 demo_L demo_Sel uniq_c stale_e demo_P1 demo_P2 merge_st0]
  show ?thesis
    by (simp add: next_t_def merge_st0_def)
qed

text \<open>
  Claim C3 as stated fails.  Here T2 holds the 14-mer of the T1 entry once, at one
  position: the match is unique, \<^verbatim>\<open>plen\<close> reaches \<^verbatim>\<open>KMER = 14\<close> and the range holds one
  position.  With \<^verbatim>\<open>FREQ = 1\<close> no record is written.
\<close>

theorem freq_one_unique_match_counterexample:
  "map e_suf uniq_c = [e_suf uniq_t] \<and> map e_cnt uniq_c = [1]
   \<and> map_option (range_total uniq_c (stale_e\<lparr>e_lcp := 11\<rparr>))
       (merge_panel 1 14 demo_L demo_Sel uniq_c stale_e demo_P1 demo_P2 [uniq_t] merge_st0)
      = Some 1
   \<and> map_option plen
       (merge_panel 1 14 demo_L demo_Sel uniq_c stale_e demo_P1 demo_P2 [uniq_t] merge_st0)
      = Some 14
   \<and> map_option emitted
       (merge_panel 1 14 demo_L demo_Sel uniq_c stale_e demo_P1 demo_P2 [uniq_t] merge_st0)
      = Some []"
  by (simp add: merge_eval)

text \<open>The same unique match is written when \<^verbatim>\<open>FREQ = 2\<close>.\<close>

lemma freq_two_unique_match:
  "map_option emitted
     (merge_panel 2 14 demo_L demo_Sel uniq_c stale_e demo_P1 demo_P2 [uniq_t] merge_st0)
    = Some [\<lparr>r_same = True, r_dest = 0, r_lcp = 14, r_apost = 500, r_bpost = 1000\<rparr>]"
  by (simp add: merge_eval)

section \<open>The length of the alignments in the temporary file\<close>

text \<open>
  \<open>process_chain\<close> appends an alignment to the temporary file only when its a-interval
  has at least \<open>ALIGN_MIN\<close> bases.
\<close>

lemma process_chain_tfile_long:
  assumes "process_chain P la fl new alen ao doff st = Inr st'"
    and "\<forall>x\<in>set (tfile st). ALIGN_MIN P \<le> aepos (path x) - abpos (path x)"
  shows "\<forall>x\<in>set (tfile st'). ALIGN_MIN P \<le> aepos (path x) - abpos (path x)"
  using assms
  by (auto simp: process_chain_def Let_def split: if_splits option.splits prod.splits)

end
